theory Spec2Isabelle
  imports Main "HOL-Library.Char_ord" "HOL-Library.List_Lexorder" "HOL-Library.AList"
begin

section \<open>Protocol buffer values\<close>

text \<open>
  Keys, entities and mutations of \<^verbatim>\<open>entity_pb2\<close> and \<^verbatim>\<open>datastore_pb2\<close>. The id and
  the name of a path element are the two members of a \<^verbatim>\<open>oneof\<close>: at most one of them
  is set, an id set to \<open>0\<close> is another message than no id, and a member that is not set
  reads as \<open>0\<close> or as the empty string. The partition of a key is a message of its own,
  present or not.
\<close>

type_synonym bytes = string

datatype id_type = IdUnset | Id int | Name string

record path_element =
  kind :: string
  id_type :: id_type

fun elem_id :: "path_element \<Rightarrow> int" where
  "elem_id element = (case id_type element of Id i \<Rightarrow> i | Name n \<Rightarrow> 0 | IdUnset \<Rightarrow> 0)"

fun elem_name :: "path_element \<Rightarrow> string" where
  "elem_name element = (case id_type element of Name n \<Rightarrow> n | Id i \<Rightarrow> [] | IdUnset \<Rightarrow> [])"

record partition_id_pb =
  project_id :: string
  namespace_id :: string

record key_pb =
  partition_id :: "partition_id_pb option"
  path :: "path_element list"

record entity_pb =
  key :: key_pb
  properties :: "(string \<times> string) list"

datatype mutation = Upsert entity_pb | Delete key_pb

text \<open>
  \<^verbatim>\<open>SerializeToString\<close> and \<^verbatim>\<open>ParseFromString\<close> of a key: the serialized form is
  canonical and parsing inverts it, so the serialized key is identified with the key.
\<close>

type_synonym todo_key = key_pb

definition SerializeToString :: "key_pb \<Rightarrow> todo_key" where
  "SerializeToString k = k"

definition ParseFromString :: "todo_key \<Rightarrow> key_pb" where
  "ParseFromString b = b"

section \<open>Options, exceptions, futures\<close>

text \<open>
  \<^verbatim>\<open>options\<close> is a keyword dictionary: an association list in insertion order whose
  values are \<^verbatim>\<open>None\<close>, bytes (a transaction id) or an integer (a read consistency).
\<close>

datatype opt_value = OptNone | OptBytes bytes | OptInt int

type_synonym options = "(string \<times> opt_value) list"

text \<open>\<^verbatim>\<open>tuple(sorted(options.items()))\<close>: the keys of a dictionary are distinct, so the
  items are ordered by their keys alone.\<close>

definition options_key :: "options \<Rightarrow> options" where
  "options_key opts = sort_key fst opts"

text \<open>\<^verbatim>\<open>datastore_pb2.ReadOptions.EVENTUAL\<close>, the enum value of the Datastore protocol.\<close>

definition EVENTUAL :: int where
  "EVENTUAL = 2"

text \<open>Python truthiness of an option value (\<^verbatim>\<open>if transaction:\<close>).\<close>

fun truthy :: "opt_value \<Rightarrow> bool" where
  "truthy OptNone = False"
| "truthy (OptBytes b) = (b \<noteq> [])"
| "truthy (OptInt i) = (i \<noteq> 0)"

datatype not_implemented = NotYetImplemented string | BadOption string

datatype exn =
    NotImplementedError not_implemented
  | ValueError string
  | KeyError
  | RpcError string

datatype py_value = PyNone | KeyValue key_pb | EntityValue entity_pb | NOT_FOUND

text \<open>
  Modelled from the spec: \<^verbatim>\<open>tasklets.Future\<close>, the completion handle, is not part of
  the source file. It is a single-assignment cell: pending, or holding a result or an
  exception; setting a settled handle again leaves it as it is.
\<close>

datatype future = Pending | Result py_value | Exception exn

fun is_done :: "future \<Rightarrow> bool" where
  "is_done Pending = False"
| "is_done (Result v) = True"
| "is_done (Exception e) = True"

section \<open>Batches, remote calls and the session state\<close>

record LookupBatch =
  lb_options :: options
  todo :: "(todo_key \<times> nat list) list"

text \<open>
  Mutations are shared objects (the same mutation is in \<^verbatim>\<open>mutations\<close> and in
  \<^verbatim>\<open>incomplete_mutations\<close> and is updated in place), so batches hold references
  into a store of mutations. Futures are references into a store of futures.
\<close>

record NonTransactionalCommitBatch =
  cb_options :: options
  mutations :: "nat list"
  futures :: "nat list"

record TransactionalCommitBatch = NonTransactionalCommitBatch +
  transaction :: opt_value
  allocating_ids :: "nat list"
  incomplete_mutations :: "nat list"
  incomplete_futures :: "nat list"

datatype batch_cls = LookupBatchCls | NonTransactionalCommitBatchCls

record read_options =
  ro_read_consistency :: opt_value
  ro_transaction :: opt_value

datatype commit_mode = NON_TRANSACTIONAL | TRANSACTIONAL

datatype rpc_request =
    LookupRequest "key_pb list" read_options
  | CommitRequest commit_mode "mutation list" opt_value
  | AllocateIdsRequest "key_pb list"

record lookup_response =
  found :: "entity_pb list"
  missing :: "entity_pb list"
  deferred :: "key_pb list"

text \<open>The outcome of a remote call: its exception, or its typed response. A commit
  response is the list of the keys of its mutation results.\<close>

datatype rpc_outcome =
    RpcException exn
  | LookupResponse lookup_response
  | CommitResponse "key_pb list"
  | AllocateIdsResponse "key_pb list"

text \<open>
  The callbacks the source hands to the event loop, as data. An idle callback is the
  closure \<^verbatim>\<open>idle\<close> of \<^verbatim>\<open>_get_batch\<close> (it holds the dictionary of its batch class
  and the options key) or the bound method \<^verbatim>\<open>idle_callback\<close> of a transactional
  batch. A remote call's callback is a bound method or a closure over a batch; the
  closure of an allocation round holds its snapshot of mutations and futures and its
  marker.
\<close>

datatype idle_cb = BatchIdle batch_cls options | AllocateIdle nat

datatype rpc_cb =
    LookupCallback nat
  | NonTransactionalCommitCallback nat
  | AllocateIdsCallback nat "nat list" "nat list" nat
  | TransactionalCommitCallback nat nat

text \<open>
  A suspended \<^verbatim>\<open>commit\<close> generator of the transactional batch at an address: it
  waits for the marker at an index of the live list \<^verbatim>\<open>allocating_ids\<close>, or for the
  future of its write call. The last component is the future the tasklet returned.
\<close>

datatype commit_pc = AwaitMarker nat | AwaitCommit nat

record tasklet =
  t_batch :: nat
  t_pc :: commit_pc
  t_future :: nat

record state =
  ctx_transaction :: opt_value
  batches :: "batch_cls \<Rightarrow> (options \<times> nat) list option"
  commit_batches :: "(opt_value \<times> nat) list"
  futs :: "nat \<Rightarrow> future"
  next_future :: nat
  mutation_store :: "nat \<Rightarrow> mutation"
  next_mutation :: nat
  lookup_store :: "nat \<Rightarrow> LookupBatch"
  next_lookup :: nat
  commit_store :: "nat \<Rightarrow> NonTransactionalCommitBatch"
  next_commit :: nat
  tx_store :: "nat \<Rightarrow> TransactionalCommitBatch"
  next_tx :: nat
  idlers :: "idle_cb list"
  rpcs :: "(rpc_request \<times> rpc_cb) list"
  calls :: "rpc_request list"
  tasklets :: "tasklet list"

text \<open>The result of a call: its value and the state, or the exception it raised and
  the state the exception left behind.\<close>

datatype 'a result = Ok 'a state | Raise exn state

definition init :: state where
  "init = \<lparr> ctx_transaction = OptNone,
            batches = (\<lambda>_. None),
            commit_batches = [],
            futs = (\<lambda>_. Pending),
            next_future = 0,
            mutation_store = (\<lambda>_. Delete \<lparr>partition_id = None, path = []\<rparr>),
            next_mutation = 0,
            lookup_store = (\<lambda>_. \<lparr>lb_options = [], todo = []\<rparr>),
            next_lookup = 0,
            commit_store = (\<lambda>_. \<lparr>cb_options = [], mutations = [], futures = []\<rparr>),
            next_commit = 0,
            tx_store = (\<lambda>_. \<lparr>cb_options = [], mutations = [], futures = [],
               transaction = OptNone, allocating_ids = [], incomplete_mutations = [],
               incomplete_futures = []\<rparr>),
            next_tx = 0,
            idlers = [],
            rpcs = [],
            calls = [],
            tasklets = [] \<rparr>"

subsection \<open>Futures and the event loop\<close>

definition new_future :: "state \<Rightarrow> nat \<times> state" where
  "new_future s =
     (next_future s,
      s\<lparr>futs := (futs s)(next_future s := Pending), next_future := Suc (next_future s)\<rparr>)"

definition set_result :: "nat \<Rightarrow> py_value \<Rightarrow> state \<Rightarrow> state" where
  "set_result f v s =
     (if is_done (futs s f) then s else s\<lparr>futs := (futs s)(f := Result v)\<rparr>)"

definition set_exception :: "nat \<Rightarrow> exn \<Rightarrow> state \<Rightarrow> state" where
  "set_exception f e s =
     (if is_done (futs s f) then s else s\<lparr>futs := (futs s)(f := Exception e)\<rparr>)"

text \<open>
  Modelled from the spec: \<^verbatim>\<open>_eventloop.add_idle\<close> registers a one-shot callback that
  fires once the current burst of synchronous work has drained, and
  \<^verbatim>\<open>_eventloop.queue_rpc\<close> registers a pending remote call with its completion
  callback. Neither is part of the source file.
\<close>

definition add_idle :: "idle_cb \<Rightarrow> state \<Rightarrow> state" where
  "add_idle cb s = s\<lparr>idlers := idlers s @ [cb]\<rparr>"

definition queue_rpc :: "rpc_request \<Rightarrow> rpc_cb \<Rightarrow> state \<Rightarrow> state" where
  "queue_rpc rq cb s = s\<lparr>rpcs := rpcs s @ [(rq, cb)]\<rparr>"

subsection \<open>Option checks\<close>

definition OPTIONS_SUPPORTED :: "string list" where
  "OPTIONS_SUPPORTED = [''transaction'', ''read_consistency'', ''read_policy'']"

definition OPTIONS_NOT_IMPLEMENTED :: "string list" where
  "OPTIONS_NOT_IMPLEMENTED =
     [''deadline'', ''force_writes'', ''use_cache'', ''use_memcache'', ''use_datastore'',
      ''memcache_timeout'', ''max_memcache_items'', ''xg'', ''propagation'', ''retries'']"

fun check_unsupported_options :: "options \<Rightarrow> exn option" where
  "check_unsupported_options [] = None"
| "check_unsupported_options ((k, v) # rest) =
     (if k \<in> set OPTIONS_NOT_IMPLEMENTED then Some (NotImplementedError (NotYetImplemented k))
      else if k \<notin> set OPTIONS_SUPPORTED then Some (NotImplementedError (BadOption k))
      else check_unsupported_options rest)"

text \<open>\<^verbatim>\<open>options.get(k)\<close>: \<^verbatim>\<open>None\<close> when the key is absent.\<close>

definition options_get :: "options \<Rightarrow> string \<Rightarrow> opt_value" where
  "options_get opts k = (case map_of opts k of None \<Rightarrow> OptNone | Some v \<Rightarrow> v)"

definition get_transaction :: "options \<Rightarrow> state \<Rightarrow> opt_value" where
  "get_transaction opts s =
     (case map_of opts ''transaction'' of None \<Rightarrow> ctx_transaction s | Some v \<Rightarrow> v)"

definition get_read_options :: "options \<Rightarrow> state \<Rightarrow> exn + read_options" where
  "get_read_options opts s =
     (let transaction = get_transaction opts s;
          rc = options_get opts ''read_consistency'';
          read_consistency = (if rc = OptNone then options_get opts ''read_policy'' else rc)
      in if transaction \<noteq> OptNone \<and> read_consistency = OptInt EVENTUAL
         then Inl (ValueError ''read_consistency must be EVENTUAL when in transaction'')
         else Inr \<lparr>ro_read_consistency = read_consistency, ro_transaction = transaction\<rparr>)"

subsection \<open>Sequencing calls that may raise\<close>

fun bind_result :: "'a result \<Rightarrow> ('a \<Rightarrow> state \<Rightarrow> 'b result) \<Rightarrow> 'b result" where
  "bind_result (Ok x s) f = f x s"
| "bind_result (Raise e s) f = Raise e s"

fun state_of :: "'a result \<Rightarrow> state" where
  "state_of (Ok x s) = s"
| "state_of (Raise e s) = s"

fun is_ok :: "'a result \<Rightarrow> bool" where
  "is_ok (Ok x s) = True"
| "is_ok (Raise e s) = False"

fun raised :: "'a result \<Rightarrow> exn option" where
  "raised (Ok x s) = None"
| "raised (Raise e s) = Some e"

definition set_results :: "nat list \<Rightarrow> py_value \<Rightarrow> state \<Rightarrow> state" where
  "set_results fs v s = fold (\<lambda>f. set_result f v) fs s"

definition set_exceptions :: "nat list \<Rightarrow> exn \<Rightarrow> state \<Rightarrow> state" where
  "set_exceptions fs e s = fold (\<lambda>f. set_exception f e) fs s"

section \<open>The batch registry\<close>

definition new_LookupBatch :: "options \<Rightarrow> state \<Rightarrow> nat result" where
  "new_LookupBatch opts s =
     Ok (next_lookup s)
        (s\<lparr>lookup_store := (lookup_store s)(next_lookup s := \<lparr>lb_options = opts, todo = []\<rparr>),
           next_lookup := Suc (next_lookup s)\<rparr>)"

definition new_NonTransactionalCommitBatch :: "options \<Rightarrow> state \<Rightarrow> nat result" where
  "new_NonTransactionalCommitBatch opts s =
     (case check_unsupported_options opts of
        Some e \<Rightarrow> Raise e s
      | None \<Rightarrow>
          Ok (next_commit s)
             (s\<lparr>commit_store := (commit_store s)(next_commit s :=
                   \<lparr>cb_options = opts, mutations = [], futures = []\<rparr>),
                next_commit := Suc (next_commit s)\<rparr>))"

fun new_batch :: "batch_cls \<Rightarrow> options \<Rightarrow> state \<Rightarrow> nat result" where
  "new_batch LookupBatchCls opts s = new_LookupBatch opts s"
| "new_batch NonTransactionalCommitBatchCls opts s = new_NonTransactionalCommitBatch opts s"

text \<open>The dictionary of a batch class in \<^verbatim>\<open>context.batches\<close>; empty when there is none.\<close>

definition batches_of :: "state \<Rightarrow> batch_cls \<Rightarrow> (options \<times> nat) list" where
  "batches_of s batch_cls = (case batches s batch_cls of None \<Rightarrow> [] | Some d \<Rightarrow> d)"

definition get_batch :: "batch_cls \<Rightarrow> options \<Rightarrow> state \<Rightarrow> nat result" where
  "get_batch batch_cls opts s =
     (let s1 = (case batches s batch_cls of
                  None \<Rightarrow> s\<lparr>batches := (batches s)(batch_cls := Some [])\<rparr>
                | Some d \<Rightarrow> s);
          okey = options_key opts
      in case map_of (batches_of s1 batch_cls) okey of
           Some batch \<Rightarrow> Ok batch s1
         | None \<Rightarrow>
             bind_result (new_batch batch_cls opts s1) (\<lambda>batch s2.
               Ok batch
                 (add_idle (BatchIdle batch_cls okey)
                    (s2\<lparr>batches := (batches s2)(batch_cls :=
                          Some (AList.update okey batch (batches_of s2 batch_cls)))\<rparr>))))"

section \<open>Lookup batches\<close>

text \<open>\<^verbatim>\<open>todo.setdefault(todo_key, []).extend(fs)\<close> on the insertion-ordered dictionary.\<close>

fun todo_extend :: "todo_key \<Rightarrow> nat list \<Rightarrow> (todo_key \<times> nat list) list
    \<Rightarrow> (todo_key \<times> nat list) list" where
  "todo_extend k fs [] = [(k, fs)]"
| "todo_extend k fs ((k', gs) # rest) =
     (if k' = k then (k', gs @ fs) # rest else (k', gs) # todo_extend k fs rest)"

text \<open>The futures a \<^verbatim>\<open>todo\<close> dictionary holds under a key (none when the key is absent).\<close>

definition slot :: "(todo_key \<times> nat list) list \<Rightarrow> todo_key \<Rightarrow> nat list" where
  "slot td k = (case map_of td k of None \<Rightarrow> [] | Some fs \<Rightarrow> fs)"

definition update_todo :: "nat \<Rightarrow> ((todo_key \<times> nat list) list \<Rightarrow> (todo_key \<times> nat list) list)
    \<Rightarrow> state \<Rightarrow> state" where
  "update_todo a f s =
     s\<lparr>lookup_store := (lookup_store s)(a := (lookup_store s a)\<lparr>todo := f (todo (lookup_store s a))\<rparr>)\<rparr>"

definition LookupBatch_add :: "nat \<Rightarrow> key_pb \<Rightarrow> state \<Rightarrow> nat result" where
  "LookupBatch_add self k s =
     (let todo_key = SerializeToString k;
          (future, s1) = new_future s
      in Ok future (update_todo self (todo_extend todo_key [future]) s1))"

definition datastore_lookup :: "key_pb list \<Rightarrow> read_options \<Rightarrow> state \<Rightarrow> rpc_request \<times> state" where
  "datastore_lookup keys ro s =
     (let request = LookupRequest keys ro in (request, s\<lparr>calls := calls s @ [request]\<rparr>))"

definition LookupBatch_idle_callback :: "nat \<Rightarrow> state \<Rightarrow> unit result" where
  "LookupBatch_idle_callback self s =
     (let keys = map (\<lambda>todo_key. ParseFromString todo_key) (map fst (todo (lookup_store s self)))
      in case get_read_options (lb_options (lookup_store s self)) s of
           Inl e \<Rightarrow> Raise e s
         | Inr ro \<Rightarrow>
             (let (rpc, s1) = datastore_lookup keys ro s
              in Ok () (queue_rpc rpc (LookupCallback self) s1)))"

text \<open>The loop over \<^verbatim>\<open>results.deferred\<close>: \<^verbatim>\<open>setdefault\<close> runs before
  \<^verbatim>\<open>self.todo[todo_key]\<close> is read, which raises \<^verbatim>\<open>KeyError\<close> for a key the batch
  does not hold.\<close>

fun defer_keys :: "nat \<Rightarrow> nat \<Rightarrow> key_pb list \<Rightarrow> state \<Rightarrow> unit result" where
  "defer_keys self next_batch [] s = Ok () s"
| "defer_keys self next_batch (k # ks) s =
     (let todo_key = SerializeToString k;
          s1 = update_todo next_batch (todo_extend todo_key []) s
      in case map_of (todo (lookup_store s1 self)) todo_key of
           None \<Rightarrow> Raise KeyError s1
         | Some fs \<Rightarrow>
             defer_keys self next_batch ks (update_todo next_batch (todo_extend todo_key fs) s1))"

text \<open>The loops over \<^verbatim>\<open>results.missing\<close> and \<^verbatim>\<open>results.found\<close>: every future of the
  entity's key receives the value.\<close>

fun resolve_entities :: "nat \<Rightarrow> (entity_pb \<Rightarrow> py_value) \<Rightarrow> entity_pb list \<Rightarrow> state
    \<Rightarrow> unit result" where
  "resolve_entities self val [] s = Ok () s"
| "resolve_entities self val (entity # rest) s =
     (let todo_key = SerializeToString (key entity)
      in case map_of (todo (lookup_store s self)) todo_key of
           None \<Rightarrow> Raise KeyError s
         | Some fs \<Rightarrow> resolve_entities self val rest (set_results fs (val entity) s))"

definition LookupBatch_lookup_callback :: "nat \<Rightarrow> exn + lookup_response \<Rightarrow> state
    \<Rightarrow> unit result" where
  "LookupBatch_lookup_callback self rpc s =
     (case rpc of
        Inl exception \<Rightarrow>
          Ok () (set_exceptions (concat (map snd (todo (lookup_store s self)))) exception s)
      | Inr results \<Rightarrow>
          bind_result
            (if deferred results \<noteq> []
             then bind_result (get_batch LookupBatchCls (lb_options (lookup_store s self)) s)
                    (\<lambda>next_batch s1. defer_keys self next_batch (deferred results) s1)
             else Ok () s)
            (\<lambda>_ s2. bind_result (resolve_entities self (\<lambda>_. NOT_FOUND) (missing results) s2)
               (\<lambda>_ s3. resolve_entities self EntityValue (found results) s3)))"

definition lookup :: "key_pb \<Rightarrow> options \<Rightarrow> state \<Rightarrow> nat result" where
  "lookup k opts s =
     (case check_unsupported_options opts of
        Some e \<Rightarrow> Raise e s
      | None \<Rightarrow> bind_result (get_batch LookupBatchCls opts s) (\<lambda>batch s1. LookupBatch_add batch k s1))"

section \<open>Commit batches\<close>

definition new_mutation :: "mutation \<Rightarrow> state \<Rightarrow> nat \<times> state" where
  "new_mutation m s =
     (next_mutation s,
      s\<lparr>mutation_store := (mutation_store s)(next_mutation s := m),
        next_mutation := Suc (next_mutation s)\<rparr>)"

definition update_commit :: "nat
    \<Rightarrow> (NonTransactionalCommitBatch \<Rightarrow> NonTransactionalCommitBatch) \<Rightarrow> state \<Rightarrow> state" where
  "update_commit a f s = s\<lparr>commit_store := (commit_store s)(a := f (commit_store s a))\<rparr>"

definition update_tx :: "nat
    \<Rightarrow> (TransactionalCommitBatch \<Rightarrow> TransactionalCommitBatch) \<Rightarrow> state \<Rightarrow> state" where
  "update_tx a f s = s\<lparr>tx_store := (tx_store s)(a := f (tx_store s a))\<rparr>"

definition NonTransactionalCommitBatch_put :: "nat \<Rightarrow> entity_pb \<Rightarrow> state \<Rightarrow> nat result" where
  "NonTransactionalCommitBatch_put self entity s =
     (let (future, s1) = new_future s;
          (mutation, s2) = new_mutation (Upsert entity) s1
      in Ok future
           (update_commit self
              (\<lambda>b. b\<lparr>mutations := mutations b @ [mutation], futures := futures b @ [future]\<rparr>) s2))"

definition NonTransactionalCommitBatch_delete :: "nat \<Rightarrow> key_pb \<Rightarrow> state \<Rightarrow> nat result" where
  "NonTransactionalCommitBatch_delete self key_pb s =
     (let (future, s1) = new_future s;
          (mutation, s2) = new_mutation (Delete key_pb) s1
      in Ok future
           (update_commit self
              (\<lambda>b. b\<lparr>mutations := mutations b @ [mutation], futures := futures b @ [future]\<rparr>) s2))"

text \<open>\<^verbatim>\<open>CommitRequest(mutations=mutations, ...)\<close> copies the mutations as they are when
  the call is made.\<close>

definition datastore_commit :: "nat list \<Rightarrow> opt_value \<Rightarrow> state \<Rightarrow> rpc_request \<times> state" where
  "datastore_commit muts txn s =
     (let mode = (if txn = OptNone then NON_TRANSACTIONAL else TRANSACTIONAL);
          request = CommitRequest mode (map (mutation_store s) muts) txn
      in (request, s\<lparr>calls := calls s @ [request]\<rparr>))"

definition datastore_allocate_ids :: "key_pb list \<Rightarrow> state \<Rightarrow> rpc_request \<times> state" where
  "datastore_allocate_ids keys s =
     (let request = AllocateIdsRequest keys in (request, s\<lparr>calls := calls s @ [request]\<rparr>))"

definition NonTransactionalCommitBatch_idle_callback :: "nat \<Rightarrow> state \<Rightarrow> unit result" where
  "NonTransactionalCommitBatch_idle_callback self s =
     (let (rpc, s1) = datastore_commit (mutations (commit_store s self)) OptNone s
      in Ok () (queue_rpc rpc (NonTransactionalCommitCallback self) s1))"

text \<open>The loop of \<^verbatim>\<open>_process_commit\<close> over \<^verbatim>\<open>zip(response.mutation_results, futures)\<close>.\<close>

fun process_results :: "key_pb list \<Rightarrow> nat list \<Rightarrow> state \<Rightarrow> state" where
  "process_results (mutation_result # results) (future # rest) s =
     process_results results rest
       (if is_done (futs s future) then s
        else set_result future
               (if path mutation_result \<noteq> [] then KeyValue mutation_result else PyNone) s)"
| "process_results [] rest s = s"
| "process_results results [] s = s"

fun process_exception :: "exn \<Rightarrow> nat list \<Rightarrow> state \<Rightarrow> state" where
  "process_exception exception [] s = s"
| "process_exception exception (future # rest) s =
     process_exception exception rest
       (if \<not> is_done (futs s future) then set_exception future exception s else s)"

definition process_commit :: "exn + key_pb list \<Rightarrow> nat list \<Rightarrow> state \<Rightarrow> state" where
  "process_commit rpc futures_list s =
     (case rpc of
        Inl exception \<Rightarrow> process_exception exception futures_list s
      | Inr mutation_results \<Rightarrow> process_results mutation_results futures_list s)"

definition complete :: "key_pb \<Rightarrow> bool" where
  "complete key_pb =
     (if path key_pb \<noteq> []
      then (let element = last (path key_pb)
            in if elem_id element \<noteq> 0 \<or> elem_name element \<noteq> [] then True else False)
      else False)"

section \<open>Transactional commit batches\<close>

definition new_TransactionalCommitBatch :: "options \<Rightarrow> state \<Rightarrow> nat result" where
  "new_TransactionalCommitBatch opts s =
     (case check_unsupported_options opts of
        Some e \<Rightarrow> Raise e s
      | None \<Rightarrow>
          Ok (next_tx s)
             (s\<lparr>tx_store := (tx_store s)(next_tx s :=
                   \<lparr>cb_options = opts, mutations = [], futures = [],
                    transaction = get_transaction opts s, allocating_ids = [],
                    incomplete_mutations = [], incomplete_futures = []\<rparr>),
                next_tx := Suc (next_tx s)\<rparr>))"

definition get_commit_batch :: "opt_value \<Rightarrow> options \<Rightarrow> state \<Rightarrow> nat result" where
  "get_commit_batch txn opts s =
     (case AList.delete ''transaction'' opts of
        (k, v) # rest \<Rightarrow> Raise (NotImplementedError (BadOption k)) s
      | [] \<Rightarrow>
          (case map_of (commit_batches s) txn of
             Some batch \<Rightarrow> Ok batch s
           | None \<Rightarrow>
               bind_result (new_TransactionalCommitBatch [(''transaction'', txn)] s) (\<lambda>batch s1.
                 Ok batch (s1\<lparr>commit_batches := AList.update txn batch (commit_batches s1)\<rparr>))))"

definition TransactionalCommitBatch_put :: "nat \<Rightarrow> entity_pb \<Rightarrow> state \<Rightarrow> nat result" where
  "TransactionalCommitBatch_put self entity s =
     (let (future, s1) = new_future s;
          s2 = update_tx self (\<lambda>b. b\<lparr>futures := futures b @ [future]\<rparr>) s1;
          (mutation, s3) = new_mutation (Upsert entity) s2;
          s4 = update_tx self (\<lambda>b. b\<lparr>mutations := mutations b @ [mutation]\<rparr>) s3
      in if \<not> complete (key entity)
         then (let s5 = (if incomplete_mutations (tx_store s4 self) = []
                         then add_idle (AllocateIdle self) s4 else s4)
               in Ok future
                    (update_tx self
                       (\<lambda>b. b\<lparr>incomplete_mutations := incomplete_mutations b @ [mutation],
                              incomplete_futures := incomplete_futures b @ [future]\<rparr>) s5))
         else Ok future (set_result future PyNone s4))"

text \<open>\<^verbatim>\<open>delete\<close> is inherited from the non-transactional batch.\<close>

definition TransactionalCommitBatch_delete :: "nat \<Rightarrow> key_pb \<Rightarrow> state \<Rightarrow> nat result" where
  "TransactionalCommitBatch_delete self key_pb s =
     (let (future, s1) = new_future s;
          (mutation, s2) = new_mutation (Delete key_pb) s1
      in Ok future
           (update_tx self
              (\<lambda>b. b\<lparr>mutations := mutations b @ [mutation], futures := futures b @ [future]\<rparr>) s2))"

text \<open>\<^verbatim>\<open>mutation.upsert.key\<close>: the key of the upserted entity; an unset field reads as
  the empty message.\<close>

fun upsert_key :: "mutation \<Rightarrow> key_pb" where
  "upsert_key (Upsert entity) = key entity"
| "upsert_key (Delete k) = \<lparr>partition_id = None, path = []\<rparr>"

text \<open>\<^verbatim>\<open>mutation.upsert.key.CopyFrom(key)\<close>, in place.\<close>

fun copy_key :: "key_pb \<Rightarrow> mutation \<Rightarrow> mutation" where
  "copy_key k (Upsert entity) = Upsert (entity\<lparr>key := k\<rparr>)"
| "copy_key k (Delete d) = Upsert \<lparr>key = k, properties = []\<rparr>"

definition TransactionalCommitBatch_idle_callback :: "nat \<Rightarrow> state \<Rightarrow> unit result" where
  "TransactionalCommitBatch_idle_callback self s =
     (if incomplete_mutations (tx_store s self) = [] then Ok () s
      else
        (let (marker, s1) = new_future s;
             s2 = update_tx self (\<lambda>b. b\<lparr>allocating_ids := allocating_ids b @ [marker]\<rparr>) s1;
             muts = incomplete_mutations (tx_store s2 self);
             futures_list = incomplete_futures (tx_store s2 self);
             keys = map (\<lambda>mutation. upsert_key (mutation_store s2 mutation)) muts;
             (rpc, s3) = datastore_allocate_ids keys s2;
             s4 = queue_rpc rpc (AllocateIdsCallback self muts futures_list marker) s3
         in Ok () (update_tx self
                     (\<lambda>b. b\<lparr>incomplete_mutations := [], incomplete_futures := []\<rparr>) s4)))"

text \<open>The loop of \<^verbatim>\<open>allocate_ids_callback\<close> over
  \<^verbatim>\<open>zip(mutations, response.keys, futures)\<close>.\<close>

fun allocate_results :: "nat list \<Rightarrow> key_pb list \<Rightarrow> nat list \<Rightarrow> state \<Rightarrow> state" where
  "allocate_results (mutation # muts) (k # keys) (future # rest) s =
     allocate_results muts keys rest
       (set_result future (KeyValue k)
          (s\<lparr>mutation_store := (mutation_store s)(mutation := copy_key k (mutation_store s mutation))\<rparr>))"
| "allocate_results [] keys rest s = s"
| "allocate_results muts [] rest s = s"
| "allocate_results muts keys [] s = s"

definition allocate_ids_callback :: "nat \<Rightarrow> exn + key_pb list \<Rightarrow> nat list \<Rightarrow> nat list
    \<Rightarrow> state \<Rightarrow> state" where
  "allocate_ids_callback self rpc muts futures_list s =
     (case rpc of
        Inl exception \<Rightarrow> set_exceptions futures_list exception s
      | Inr keys \<Rightarrow> allocate_results muts keys futures_list s)"

text \<open>The closure \<^verbatim>\<open>callback\<close> of \<^verbatim>\<open>idle_callback\<close>: the round's results, then its marker.\<close>

definition allocate_callback :: "nat \<Rightarrow> nat list \<Rightarrow> nat list \<Rightarrow> nat \<Rightarrow> exn + key_pb list
    \<Rightarrow> state \<Rightarrow> state" where
  "allocate_callback self muts futures_list marker rpc s =
     set_result marker PyNone (allocate_ids_callback self rpc muts futures_list s)"

text \<open>
  The \<^verbatim>\<open>commit\<close> generator. The \<^verbatim>\<open>for\<close> loop reads the live list
  \<^verbatim>\<open>self.allocating_ids\<close> by index, so a marker appended while the generator is
  suspended is met when the loop goes on. \<open>first_pending\<close> finds the first index from
  \<open>i\<close> on whose marker is not done.

  Modelled from the spec: \<^verbatim>\<open>tasklets.tasklet\<close> is not part of the source file. The
  generator runs until it yields a future that is not done, is suspended there, and
  goes on once that future is done.
\<close>

fun first_pending :: "(nat \<Rightarrow> future) \<Rightarrow> nat list \<Rightarrow> nat \<Rightarrow> nat option" where
  "first_pending fs [] i = None"
| "first_pending fs (marker # markers) i =
     (if \<not> is_done (fs marker) then Some i else first_pending fs markers (Suc i))"

definition commit_from :: "nat \<Rightarrow> nat \<Rightarrow> nat \<Rightarrow> state \<Rightarrow> state" where
  "commit_from self i tasklet_future s =
     (case first_pending (futs s) (drop i (allocating_ids (tx_store s self))) i of
        Some j \<Rightarrow>
          s\<lparr>tasklets := tasklets s @
               [\<lparr>t_batch = self, t_pc = AwaitMarker j, t_future = tasklet_future\<rparr>]\<rparr>
      | None \<Rightarrow>
          (let s1 = update_tx self
                      (\<lambda>b. b\<lparr>incomplete_mutations := [], incomplete_futures := []\<rparr>) s;
               (future, s2) = new_future s1;
               (rpc, s3) = datastore_commit (mutations (tx_store s2 self))
                             (transaction (tx_store s2 self)) s2;
               s4 = queue_rpc rpc (TransactionalCommitCallback self future) s3
           in s4\<lparr>tasklets := tasklets s4 @
                   [\<lparr>t_batch = self, t_pc = AwaitCommit future, t_future = tasklet_future\<rparr>]\<rparr>))"

definition TransactionalCommitBatch_commit :: "nat \<Rightarrow> state \<Rightarrow> nat result" where
  "TransactionalCommitBatch_commit self s =
     (let (tasklet_future, s1) = new_future s
      in if mutations (tx_store s1 self) = []
         then Ok tasklet_future (set_result tasklet_future PyNone s1)
         else Ok tasklet_future (commit_from self 0 tasklet_future s1))"

text \<open>The closure \<^verbatim>\<open>commit_callback\<close> of \<^verbatim>\<open>commit\<close>; its \<^verbatim>\<open>futures\<close> is the live list
  of the batch.\<close>

definition transactional_commit_callback :: "nat \<Rightarrow> nat \<Rightarrow> exn + key_pb list \<Rightarrow> state
    \<Rightarrow> state" where
  "transactional_commit_callback self future rpc s =
     (let s1 = process_commit rpc (futures (tx_store s self)) s
      in case rpc of
           Inl exception \<Rightarrow> set_exception future exception s1
         | Inr results \<Rightarrow> set_result future PyNone s1)"

definition nontransactional_commit_callback :: "nat \<Rightarrow> exn + key_pb list \<Rightarrow> state \<Rightarrow> state" where
  "nontransactional_commit_callback self rpc s =
     process_commit rpc (futures (commit_store s self)) s"

section \<open>The entry points\<close>

definition put :: "entity_pb \<Rightarrow> options \<Rightarrow> state \<Rightarrow> nat result" where
  "put entity opts s =
     (let txn = get_transaction opts s
      in if truthy txn
         then bind_result (get_commit_batch txn opts s)
                (\<lambda>batch s1. TransactionalCommitBatch_put batch entity s1)
         else bind_result (get_batch NonTransactionalCommitBatchCls opts s)
                (\<lambda>batch s1. NonTransactionalCommitBatch_put batch entity s1))"

definition delete :: "key_pb \<Rightarrow> options \<Rightarrow> state \<Rightarrow> nat result" where
  "delete k opts s =
     (let txn = get_transaction opts s
      in if truthy txn
         then bind_result (get_commit_batch txn opts s)
                (\<lambda>batch s1. TransactionalCommitBatch_delete batch k s1)
         else bind_result (get_batch NonTransactionalCommitBatchCls opts s)
                (\<lambda>batch s1. NonTransactionalCommitBatch_delete batch k s1))"

definition commit :: "opt_value \<Rightarrow> state \<Rightarrow> nat result" where
  "commit txn s =
     bind_result (get_commit_batch txn [] s) (\<lambda>batch s1. TransactionalCommitBatch_commit batch s1)"

section \<open>The event loop\<close>

text \<open>The closure \<^verbatim>\<open>idle\<close> of \<^verbatim>\<open>_get_batch\<close>: the batch leaves the dictionary, then its
  \<^verbatim>\<open>idle_callback\<close> runs.\<close>

definition idle :: "batch_cls \<Rightarrow> options \<Rightarrow> state \<Rightarrow> unit result" where
  "idle batch_cls okey s =
     (case map_of (batches_of s batch_cls) okey of
        None \<Rightarrow> Raise KeyError s
      | Some batch \<Rightarrow>
          (let s1 = s\<lparr>batches := (batches s)(batch_cls :=
                         Some (AList.delete okey (batches_of s batch_cls)))\<rparr>
           in case batch_cls of
                LookupBatchCls \<Rightarrow> LookupBatch_idle_callback batch s1
              | NonTransactionalCommitBatchCls \<Rightarrow>
                  NonTransactionalCommitBatch_idle_callback batch s1))"

fun run_idle_callback :: "idle_cb \<Rightarrow> state \<Rightarrow> unit result" where
  "run_idle_callback (BatchIdle batch_cls okey) s = idle batch_cls okey s"
| "run_idle_callback (AllocateIdle self) s = TransactionalCommitBatch_idle_callback self s"

text \<open>A remote call completes with the outcome of its own kind and its callback runs.\<close>

fun run_rpc_callback :: "rpc_cb \<Rightarrow> rpc_outcome \<Rightarrow> state \<Rightarrow> unit result option" where
  "run_rpc_callback (LookupCallback self) (RpcException e) s =
     Some (LookupBatch_lookup_callback self (Inl e) s)"
| "run_rpc_callback (LookupCallback self) (LookupResponse r) s =
     Some (LookupBatch_lookup_callback self (Inr r) s)"
| "run_rpc_callback (NonTransactionalCommitCallback self) (RpcException e) s =
     Some (Ok () (nontransactional_commit_callback self (Inl e) s))"
| "run_rpc_callback (NonTransactionalCommitCallback self) (CommitResponse r) s =
     Some (Ok () (nontransactional_commit_callback self (Inr r) s))"
| "run_rpc_callback (AllocateIdsCallback self muts fs marker) (RpcException e) s =
     Some (Ok () (allocate_callback self muts fs marker (Inl e) s))"
| "run_rpc_callback (AllocateIdsCallback self muts fs marker) (AllocateIdsResponse keys) s =
     Some (Ok () (allocate_callback self muts fs marker (Inr keys) s))"
| "run_rpc_callback (TransactionalCommitCallback self future) (RpcException e) s =
     Some (Ok () (transactional_commit_callback self future (Inl e) s))"
| "run_rpc_callback (TransactionalCommitCallback self future) (CommitResponse r) s =
     Some (Ok () (transactional_commit_callback self future (Inr r) s))"
| "run_rpc_callback cb outcome s = None"

definition remove_nth :: "nat \<Rightarrow> 'a list \<Rightarrow> 'a list" where
  "remove_nth n xs = take n xs @ drop (Suc n) xs"

definition rpc_done :: "nat \<Rightarrow> rpc_outcome \<Rightarrow> state \<Rightarrow> unit result option" where
  "rpc_done n outcome s =
     (if n < length (rpcs s)
      then run_rpc_callback (snd (rpcs s ! n)) outcome (s\<lparr>rpcs := remove_nth n (rpcs s)\<rparr>)
      else None)"

text \<open>A suspended \<^verbatim>\<open>commit\<close> goes on once the future it waits for is done.\<close>

definition resume :: "nat \<Rightarrow> state \<Rightarrow> unit result option" where
  "resume n s =
     (if n < length (tasklets s)
      then (let t = tasklets s ! n;
                s1 = s\<lparr>tasklets := remove_nth n (tasklets s)\<rparr>
            in case t_pc t of
                 AwaitMarker j \<Rightarrow>
                   (if j < length (allocating_ids (tx_store s (t_batch t)))
                       \<and> is_done (futs s (allocating_ids (tx_store s (t_batch t)) ! j))
                    then Some (Ok () (commit_from (t_batch t) (Suc j) (t_future t) s1))
                    else None)
               | AwaitCommit future \<Rightarrow>
                   (case futs s future of
                      Pending \<Rightarrow> None
                    | Result v \<Rightarrow> Some (Ok () (set_result (t_future t) PyNone s1))
                    | Exception e \<Rightarrow> Some (Ok () (set_exception (t_future t) e s1))))
      else None)"

datatype event =
    CallLookup key_pb options
  | CallPut entity_pb options
  | CallDelete key_pb options
  | CallCommit opt_value
  | RunIdle
  | RpcDone nat rpc_outcome
  | Resume nat

fun forget :: "'a result \<Rightarrow> unit result" where
  "forget (Ok x s) = Ok () s"
| "forget (Raise e s) = Raise e s"

text \<open>One step of the session: an entry point is called, the oldest idle callback
  fires, a pending remote call completes, or a suspended commit goes on. \<open>None\<close> when
  the event cannot happen in the state.\<close>

fun step :: "event \<Rightarrow> state \<Rightarrow> unit result option" where
  "step (CallLookup k opts) s = Some (forget (lookup k opts s))"
| "step (CallPut entity opts) s = Some (forget (put entity opts s))"
| "step (CallDelete k opts) s = Some (forget (delete k opts s))"
| "step (CallCommit txn) s = Some (forget (commit txn s))"
| "step RunIdle s =
     (case idlers s of
        [] \<Rightarrow> None
      | cb # rest \<Rightarrow> Some (run_idle_callback cb (s\<lparr>idlers := rest\<rparr>)))"
| "step (RpcDone n outcome) s = rpc_done n outcome s"
| "step (Resume n) s = resume n s"

text \<open>A run of events; an exception leaves its state behind and the session goes on.\<close>

fun run :: "event list \<Rightarrow> state \<Rightarrow> state option" where
  "run [] s = Some s"
| "run (e # es) s = (case step e s of None \<Rightarrow> None | Some r \<Rightarrow> run es (state_of r))"

text \<open>
  What the deferral of the keys \<open>ks\<close> of the flushed batch \<open>self\<close> leaves behind, from the
  state \<open>s\<close> before the callback to the state \<open>s'\<close> after it: the registry holds an open
  batch under the options key of \<open>self\<close>, another object than \<open>self\<close>. It is the batch
  that was open already, now holding the futures of \<open>self\<close> after its own under every
  deferred key, with no flush scheduled anew; or it is a new batch with one flush
  scheduled, holding under every deferred key exactly the futures of \<open>self\<close>.
\<close>

definition resubmitted :: "nat \<Rightarrow> key_pb list \<Rightarrow> state \<Rightarrow> state \<Rightarrow> bool" where
  "resubmitted self ks s s' =
     (let okey = options_key (lb_options (lookup_store s self));
          own = todo (lookup_store s self)
      in case map_of (batches_of s' LookupBatchCls) okey of
           None \<Rightarrow> False
         | Some nb \<Rightarrow>
             nb \<noteq> self \<and>
             (case map_of (batches_of s LookupBatchCls) okey of
                Some nb0 \<Rightarrow>
                  nb = nb0 \<and> idlers s' = idlers s \<and>
                  list_all (\<lambda>k. slot (todo (lookup_store s' nb)) k
                                 = slot (todo (lookup_store s nb)) k @ slot own k) ks
              | None \<Rightarrow>
                  nb = next_lookup s \<and>
                  idlers s' = idlers s @ [BatchIdle LookupBatchCls okey] \<and>
                  list_all (\<lambda>k. slot (todo (lookup_store s' nb)) k = slot own k) ks))"

text \<open>The \<^verbatim>\<open>todo\<close> dictionary after the pairs of a key and a future have been added to it
  in their order, as \<^verbatim>\<open>add\<close> does.\<close>

definition enqueue :: "(todo_key \<times> nat) list \<Rightarrow> (todo_key \<times> nat list) list
    \<Rightarrow> (todo_key \<times> nat list) list" where
  "enqueue pairs td = fold (\<lambda>p. todo_extend (fst p) [snd p]) pairs td"


text \<open>The read consistency \<^verbatim>\<open>_get_read_options\<close> works with: the option
  \<^verbatim>\<open>read_consistency\<close>, or the legacy option \<^verbatim>\<open>read_policy\<close> when that one is
  \<^verbatim>\<open>None\<close> or absent.\<close>

definition effective_read_consistency :: "options \<Rightarrow> opt_value" where
  "effective_read_consistency opts =
     (if options_get opts ''read_consistency'' = OptNone
      then options_get opts ''read_policy''
      else options_get opts ''read_consistency'')"

text \<open>
  The registry seen from a batch class: the address its next batch will get, the batches
  that are open (the values of its dictionary), and the batch object at an address.
\<close>

fun next_batch :: "state \<Rightarrow> batch_cls \<Rightarrow> nat" where
  "next_batch s LookupBatchCls = next_lookup s"
| "next_batch s NonTransactionalCommitBatchCls = next_commit s"

definition open_batches :: "state \<Rightarrow> batch_cls \<Rightarrow> nat list" where
  "open_batches s batch_cls = map snd (batches_of s batch_cls)"

fun batch_at :: "state \<Rightarrow> batch_cls \<Rightarrow> nat \<Rightarrow> LookupBatch + NonTransactionalCommitBatch" where
  "batch_at s LookupBatchCls b = Inl (lookup_store s b)"
| "batch_at s NonTransactionalCommitBatchCls b = Inr (commit_store s b)"

text \<open>\<^verbatim>\<open>batch.idle_callback()\<close> of a batch of either class.\<close>

fun idle_callback :: "batch_cls \<Rightarrow> nat \<Rightarrow> state \<Rightarrow> unit result" where
  "idle_callback LookupBatchCls b s = LookupBatch_idle_callback b s"
| "idle_callback NonTransactionalCommitBatchCls b s = NonTransactionalCommitBatch_idle_callback b s"

text \<open>
  The registry is well formed: the dictionary of a class holds an options key once and
  a batch once, and the batches it holds have been created. A batch is closed when it
  has been created and the dictionary of its class does not hold it.
\<close>

definition registry_ok :: "state \<Rightarrow> bool" where
  "registry_ok s =
     list_all (\<lambda>batch_cls. distinct (map fst (batches_of s batch_cls))
                 \<and> distinct (open_batches s batch_cls)
                 \<and> list_all (\<lambda>b. b < next_batch s batch_cls) (open_batches s batch_cls))
       [LookupBatchCls, NonTransactionalCommitBatchCls]"

definition closed :: "state \<Rightarrow> batch_cls \<Rightarrow> nat \<Rightarrow> bool" where
  "closed s batch_cls b = (b < next_batch s batch_cls \<and> b \<notin> set (open_batches s batch_cls))"

text \<open>
  The part of the state the registry and its batches live in, and what a piece of the
  program keeps for a closed batch between the state \<open>s\<close> before it and the state \<open>s'\<close>
  after it: a well-formed registry stays well formed, and the batch stays closed and is
  the same object.
\<close>

definition registry_view :: "state \<Rightarrow> (batch_cls \<Rightarrow> (options \<times> nat) list option)
    \<times> (nat \<Rightarrow> LookupBatch) \<times> nat \<times> (nat \<Rightarrow> NonTransactionalCommitBatch) \<times> nat" where
  "registry_view s = (batches s, lookup_store s, next_lookup s, commit_store s, next_commit s)"

definition stays_closed :: "batch_cls \<Rightarrow> nat \<Rightarrow> state \<Rightarrow> state \<Rightarrow> bool" where
  "stays_closed batch_cls b s s' =
     (registry_ok s \<longrightarrow>
        registry_ok s' \<and>
        (closed s batch_cls b \<longrightarrow>
           closed s' batch_cls b \<and> batch_at s' batch_cls b = batch_at s batch_cls b))"

section \<open>Example values\<close>

definition key1 :: key_pb where
  "key1 = \<lparr>partition_id = Some \<lparr>project_id = ''p'', namespace_id = []\<rparr>,
            path = [\<lparr>kind = ''Kind'', id_type = Id 1\<rparr>]\<rparr>"

definition key2 :: key_pb where
  "key2 = \<lparr>partition_id = Some \<lparr>project_id = ''p'', namespace_id = []\<rparr>,
            path = [\<lparr>kind = ''Kind'', id_type = Id 2\<rparr>]\<rparr>"

definition incomplete_key :: key_pb where
  "incomplete_key =
     \<lparr>partition_id = Some \<lparr>project_id = ''p'', namespace_id = []\<rparr>,
      path = [\<lparr>kind = ''Kind'', id_type = IdUnset\<rparr>]\<rparr>"

definition empty_key :: key_pb where
  "empty_key = \<lparr>partition_id = None, path = []\<rparr>"

definition entity_of :: "key_pb \<Rightarrow> entity_pb" where
  "entity_of k = \<lparr>key = k, properties = [(''name'', ''value'')]\<rparr>"

definition txn1 :: opt_value where
  "txn1 = OptBytes ''tx-1''"

definition in_txn1 :: state where
  "in_txn1 = init\<lparr>ctx_transaction := txn1\<rparr>"

text \<open>Three lookups with no options, two of them for the same key, and the state after
  the flush of their batch.\<close>

definition three_lookups :: state where
  "three_lookups =
     state_of (lookup key2 [] (state_of (lookup key1 [] (state_of (lookup key1 [] init)))))"

definition flushed :: state where
  "flushed = (case step RunIdle three_lookups of None \<Rightarrow> three_lookups | Some r \<Rightarrow> state_of r)"

text \<open>Options with a transaction and, through the legacy option, eventual reads, and
  the state after two lookups with them.\<close>

definition eventual_in_txn1 :: options where
  "eventual_in_txn1 = [(''transaction'', txn1), (''read_policy'', OptInt EVENTUAL)]"

definition two_eventual_lookups :: state where
  "two_eventual_lookups =
     state_of (lookup key2 eventual_in_txn1 (state_of (lookup key1 eventual_in_txn1 init)))"





section \<open>Properties of the option checks and of the routing\<close>

lemma delete_head:
  assumes "(k0, v0) \<in> set opts" "k0 \<noteq> t"
  shows "\<exists>k v rest. AList.delete t opts = (k, v) # rest \<and> k \<noteq> t \<and> (k, v) \<in> set opts"
proof -
  have "(k0, v0) \<in> set (AList.delete t opts)"
    using assms by (auto simp: AList.delete_eq)
  then obtain p rest where eq: "AList.delete t opts = p # rest"
    by (cases "AList.delete t opts") auto
  have "p \<in> set (AList.delete t opts)" using eq by simp
  then have "p \<in> set opts" "fst p \<noteq> t"
    by (auto simp: AList.delete_eq)
  moreover obtain k v where "p = (k, v)" by (cases p)
  ultimately have "AList.delete t opts = (k, v) # rest \<and> k \<noteq> t \<and> (k, v) \<in> set opts"
    using eq by simp
  then show ?thesis by blast
qed

text \<open>
  C10. Acquiring a transactional commit batch with an option other than
  \<^verbatim>\<open>transaction\<close> raises \<^verbatim>\<open>NotImplementedError\<close> for such an option and leaves the
  whole state, so also the registry of the transactions, as it was; a \<^verbatim>\<open>put\<close> or a
  \<^verbatim>\<open>delete\<close> whose transaction is set fails in the same way.
\<close>

theorem get_commit_batch_bad_option:
  assumes "(k0, v0) \<in> set opts" "k0 \<noteq> ''transaction''"
  shows "\<exists>k. k \<noteq> ''transaction'' \<and> k \<in> fst ` set opts
           \<and> get_commit_batch txn opts s = Raise (NotImplementedError (BadOption k)) s
           \<and> (truthy (get_transaction opts s) \<longrightarrow>
                put entity opts s = Raise (NotImplementedError (BadOption k)) s
              \<and> delete dk opts s = Raise (NotImplementedError (BadOption k)) s)"
proof -
  obtain k v rest where d: "AList.delete ''transaction'' opts = (k, v) # rest"
      "k \<noteq> ''transaction''" "(k, v) \<in> set opts"
    using delete_head[OF assms] by blast
  have g: "\<And>t. get_commit_batch t opts s = Raise (NotImplementedError (BadOption k)) s"
    using d(1) by (simp add: get_commit_batch_def)
  have "k \<in> fst ` set opts" using d(3) by force
  then show ?thesis using d(2) g
    by (auto simp: put_def delete_def Let_def)
qed

theorem get_commit_batch_bad_option_witness:
  "(''read_consistency'', OptInt 1) \<in> set [(''read_consistency'', OptInt 1)]
   \<and> ''read_consistency'' \<noteq> ''transaction''
   \<and> truthy (get_transaction [(''read_consistency'', OptInt 1)] in_txn1)
   \<and> get_commit_batch txn1 [(''read_consistency'', OptInt 1)] in_txn1
       = Raise (NotImplementedError (BadOption ''read_consistency'')) in_txn1
   \<and> put (entity_of key1) [(''read_consistency'', OptInt 1)] in_txn1
       = Raise (NotImplementedError (BadOption ''read_consistency'')) in_txn1
   \<and> delete key1 [(''read_consistency'', OptInt 1)] in_txn1
       = Raise (NotImplementedError (BadOption ''read_consistency'')) in_txn1"
  using get_commit_batch_bad_option
    [of "''read_consistency''" "OptInt 1" "[(''read_consistency'', OptInt 1)]"
        txn1 in_txn1 "entity_of key1" key1]
  by (auto simp: get_transaction_def in_txn1_def txn1_def init_def)

section \<open>Properties of the commit response\<close>

lemma process_results_other:
  "f \<notin> set (take (length results) fl) \<Longrightarrow> futs (process_results results fl s) f = futs s f"
proof (induction results fl s rule: process_results.induct)
  case (1 mr results future rest s)
  then show ?case by (auto simp: set_result_def)
qed auto

lemma process_results_nth:
  "distinct fl \<Longrightarrow> i < length results \<Longrightarrow> i < length fl \<Longrightarrow>
   futs (process_results results fl s) (fl ! i) =
     (if is_done (futs s (fl ! i)) then futs s (fl ! i)
      else Result (if path (results ! i) \<noteq> [] then KeyValue (results ! i) else PyNone))"
proof (induction results fl s arbitrary: i rule: process_results.induct)
  case (1 mr results future rest s)
  let ?s1 = "if is_done (futs s future) then s
        else set_result future (if path mr \<noteq> [] then KeyValue mr else PyNone) s"
  show ?case
  proof (cases i)
    case 0
    have "future \<notin> set (take (length results) rest)"
      using 1(2) by (auto dest: in_set_takeD)
    then show ?thesis using 0
      by (simp add: process_results_other set_result_def)
  next
    case (Suc j)
    have ne: "rest ! j \<noteq> future" using 1(2,4) Suc by auto
    have "futs (process_results results rest ?s1) (rest ! j)
      = (if is_done (futs ?s1 (rest ! j)) then futs ?s1 (rest ! j)
         else Result (if path (results ! j) \<noteq> [] then KeyValue (results ! j) else PyNone))"
      using 1 Suc by (intro "1.IH") auto
    then show ?thesis using Suc ne by (simp add: set_result_def)
  qed
qed auto

lemma process_exception_futs:
  "futs (process_exception e fl s) f =
     (if f \<in> set fl \<and> \<not> is_done (futs s f) then Exception e else futs s f)"
  by (induction e fl s rule: process_exception.induct) (auto simp: set_exception_def)

text \<open>
  C4. \<^verbatim>\<open>_process_commit\<close> resolves the i-th future with the i-th mutation result,
  whatever the mutations were: with the returned key when its path is not empty and with
  \<^verbatim>\<open>None\<close> when it is empty. A future that is already done keeps what it holds, on a
  response and on an exception; an exception reaches every future of the list that is
  not done, and no other future changes. The futures of a batch are distinct objects.
\<close>

theorem process_commit_positional:
  assumes "distinct fl"
  shows "(\<forall>i. i < length results \<and> i < length fl \<longrightarrow>
            futs (process_commit (Inr results) fl s) (fl ! i) =
              (if is_done (futs s (fl ! i)) then futs s (fl ! i)
               else Result (if path (results ! i) \<noteq> [] then KeyValue (results ! i) else PyNone)))
       \<and> (\<forall>f. f \<notin> set (take (length results) fl) \<longrightarrow>
            futs (process_commit (Inr results) fl s) f = futs s f)
       \<and> (\<forall>f. futs (process_commit (Inl e) fl s) f =
            (if f \<in> set fl \<and> \<not> is_done (futs s f) then Exception e else futs s f))"
  using assms
  by (simp add: process_commit_def process_results_nth process_results_other
      process_exception_futs)

theorem process_commit_positional_witness:
  "distinct [0, 1, 2::nat]
   \<and> futs (process_commit (Inr [key1, empty_key, key2]) [0, 1, 2] (set_result 2 NOT_FOUND init)) 0
       = Result (KeyValue key1)
   \<and> futs (process_commit (Inr [key1, empty_key, key2]) [0, 1, 2] (set_result 2 NOT_FOUND init)) 1
       = Result PyNone
   \<and> futs (process_commit (Inr [key1, empty_key, key2]) [0, 1, 2] (set_result 2 NOT_FOUND init)) 2
       = Result NOT_FOUND
   \<and> futs (process_commit (Inl (RpcError ''unavailable'')) [0, 1, 2]
        (set_result 2 NOT_FOUND init)) 1 = Exception (RpcError ''unavailable'')
   \<and> futs (process_commit (Inl (RpcError ''unavailable'')) [0, 1, 2]
        (set_result 2 NOT_FOUND init)) 2 = Result NOT_FOUND"
proof -
  have d: "distinct [0, 1, 2::nat]" by simp
  note t = process_commit_positional
    [OF d, of "[key1, empty_key, key2]" "set_result 2 NOT_FOUND init" "RpcError ''unavailable''"]
  have r: "futs (set_result 2 NOT_FOUND init) = (\<lambda>f. if f = 2 then Result NOT_FOUND else Pending)"
    by (auto simp: set_result_def init_def)
  from t have a: "\<And>i. i < 3 \<Longrightarrow>
      futs (process_commit (Inr [key1, empty_key, key2]) [0, 1, 2] (set_result 2 NOT_FOUND init))
        ([0, 1, 2] ! i) =
      (if is_done (futs (set_result 2 NOT_FOUND init) ([0, 1, 2] ! i))
       then futs (set_result 2 NOT_FOUND init) ([0, 1, 2] ! i)
       else Result (if path ([key1, empty_key, key2] ! i) \<noteq> []
                    then KeyValue ([key1, empty_key, key2] ! i) else PyNone))"
    by simp
  from t have b: "\<And>f. futs (process_commit (Inl (RpcError ''unavailable'')) [0, 1, 2]
        (set_result 2 NOT_FOUND init)) f =
      (if f \<in> set [0, 1, 2] \<and> \<not> is_done (futs (set_result 2 NOT_FOUND init) f)
       then Exception (RpcError ''unavailable'') else futs (set_result 2 NOT_FOUND init) f)"
    by blast
  show ?thesis
    using a[of 0] a[of 1] a[of 2] b[of 1] b[of 2]
    by (simp add: r key1_def key2_def empty_key_def)
qed

lemmas prims = new_future_def new_mutation_def update_tx_def update_commit_def update_todo_def
  add_idle_def queue_rpc_def set_result_def set_exception_def

lemma get_transaction_absent:
  "''transaction'' \<notin> fst ` set opts \<Longrightarrow> get_transaction opts s = ctx_transaction s"
  by (simp add: get_transaction_def map_of_eq_None_iff[THEN iffD2])

lemma check_transaction_only [simp]:
  "check_unsupported_options [(''transaction'', txn)] = None"
  by (simp add: OPTIONS_NOT_IMPLEMENTED_def OPTIONS_SUPPORTED_def)

lemma get_commit_batch_empty:
  "\<exists>b s1. get_commit_batch txn [] s = Ok b s1
     \<and> map_of (commit_batches s1) txn = Some b
     \<and> batches s1 = batches s \<and> commit_store s1 = commit_store s
     \<and> next_commit s1 = next_commit s \<and> idlers s1 = idlers s
     \<and> mutation_store s1 = mutation_store s \<and> next_mutation s1 = next_mutation s
     \<and> futs s1 = futs s \<and> next_future s1 = next_future s \<and> calls s1 = calls s"
  by (cases "map_of (commit_batches s) txn")
     (auto simp: get_commit_batch_def new_TransactionalCommitBatch_def AList.update_conv'
        OPTIONS_NOT_IMPLEMENTED_def OPTIONS_SUPPORTED_def)

lemma TransactionalCommitBatch_put_appends:
  "\<exists>s2. TransactionalCommitBatch_put b entity s1 = Ok (next_future s1) s2
     \<and> commit_batches s2 = commit_batches s1
     \<and> batches s2 = batches s1 \<and> commit_store s2 = commit_store s1
     \<and> mutations (tx_store s2 b) = mutations (tx_store s1 b) @ [next_mutation s1]
     \<and> futures (tx_store s2 b) = futures (tx_store s1 b) @ [next_future s1]
     \<and> mutation_store s2 (next_mutation s1) = Upsert entity"
  by (simp add: TransactionalCommitBatch_put_def prims Let_def)

lemma TransactionalCommitBatch_delete_appends:
  "\<exists>s2. TransactionalCommitBatch_delete b k s1 = Ok (next_future s1) s2
     \<and> commit_batches s2 = commit_batches s1
     \<and> batches s2 = batches s1 \<and> commit_store s2 = commit_store s1
     \<and> mutations (tx_store s2 b) = mutations (tx_store s1 b) @ [next_mutation s1]
     \<and> futures (tx_store s2 b) = futures (tx_store s1 b) @ [next_future s1]
     \<and> mutation_store s2 (next_mutation s1) = Delete k"
  by (simp add: TransactionalCommitBatch_delete_def prims Let_def)

lemma get_commit_batch_frame:
  "batches (state_of (get_commit_batch txn opts s)) = batches s
   \<and> commit_store (state_of (get_commit_batch txn opts s)) = commit_store s"
  by (auto simp: get_commit_batch_def new_TransactionalCommitBatch_def
      OPTIONS_NOT_IMPLEMENTED_def OPTIONS_SUPPORTED_def
      split: list.splits option.splits)

lemma state_of_bind:
  "state_of (bind_result r f) = (case r of Ok x s \<Rightarrow> state_of (f x s) | Raise e s \<Rightarrow> s)"
  by (cases r) auto

lemma put_transactional_frame:
  "batches (state_of (bind_result (get_commit_batch txn opts s)
       (\<lambda>batch s1. TransactionalCommitBatch_put batch entity s1))) = batches s
   \<and> commit_store (state_of (bind_result (get_commit_batch txn opts s)
       (\<lambda>batch s1. TransactionalCommitBatch_put batch entity s1))) = commit_store s"
proof (cases "get_commit_batch txn opts s")
  case (Ok b s1)
  then show ?thesis
    using get_commit_batch_frame[of txn opts s] TransactionalCommitBatch_put_appends[of b entity s1]
    by auto
next
  case (Raise e s1)
  then show ?thesis using get_commit_batch_frame[of txn opts s] by auto
qed

lemma delete_transactional_frame:
  "batches (state_of (bind_result (get_commit_batch txn opts s)
       (\<lambda>batch s1. TransactionalCommitBatch_delete batch k s1))) = batches s
   \<and> commit_store (state_of (bind_result (get_commit_batch txn opts s)
       (\<lambda>batch s1. TransactionalCommitBatch_delete batch k s1))) = commit_store s"
proof (cases "get_commit_batch txn opts s")
  case (Ok b s1)
  then show ?thesis
    using get_commit_batch_frame[of txn opts s] TransactionalCommitBatch_delete_appends[of b k s1]
    by auto
next
  case (Raise e s1)
  then show ?thesis using get_commit_batch_frame[of txn opts s] by auto
qed

lemma put_transactional_empty:
  "\<exists>f b s2. bind_result (get_commit_batch txn [] s)
       (\<lambda>batch s1. TransactionalCommitBatch_put batch entity s1) = Ok f s2
     \<and> map_of (commit_batches s2) txn = Some b
     \<and> mutations (tx_store s2 b) \<noteq> []
     \<and> mutation_store s2 (last (mutations (tx_store s2 b))) = Upsert entity
     \<and> last (futures (tx_store s2 b)) = f"
proof -
  obtain b s1 where g: "get_commit_batch txn [] s = Ok b s1"
      "map_of (commit_batches s1) txn = Some b" "next_mutation s1 = next_mutation s"
    using get_commit_batch_empty[of txn s] by blast
  obtain s2 where p: "TransactionalCommitBatch_put b entity s1 = Ok (next_future s1) s2"
     "commit_batches s2 = commit_batches s1"
     "mutations (tx_store s2 b) = mutations (tx_store s1 b) @ [next_mutation s1]"
     "futures (tx_store s2 b) = futures (tx_store s1 b) @ [next_future s1]"
     "mutation_store s2 (next_mutation s1) = Upsert entity"
    using TransactionalCommitBatch_put_appends[of b entity s1] by blast
  show ?thesis using g p by simp
qed

lemma delete_transactional_empty:
  "\<exists>f b s2. bind_result (get_commit_batch txn [] s)
       (\<lambda>batch s1. TransactionalCommitBatch_delete batch k s1) = Ok f s2
     \<and> map_of (commit_batches s2) txn = Some b
     \<and> mutations (tx_store s2 b) \<noteq> []
     \<and> mutation_store s2 (last (mutations (tx_store s2 b))) = Delete k
     \<and> last (futures (tx_store s2 b)) = f"
proof -
  obtain b s1 where g: "get_commit_batch txn [] s = Ok b s1"
      "map_of (commit_batches s1) txn = Some b" "next_mutation s1 = next_mutation s"
    using get_commit_batch_empty[of txn s] by blast
  obtain s2 where p: "TransactionalCommitBatch_delete b k s1 = Ok (next_future s1) s2"
     "commit_batches s2 = commit_batches s1"
     "mutations (tx_store s2 b) = mutations (tx_store s1 b) @ [next_mutation s1]"
     "futures (tx_store s2 b) = futures (tx_store s1 b) @ [next_future s1]"
     "mutation_store s2 (next_mutation s1) = Delete k"
    using TransactionalCommitBatch_delete_appends[of b k s1] by blast
  show ?thesis using g p by simp
qed

lemma batches_of_simps [simp]:
  "batches s cls = None \<Longrightarrow> batches_of s cls = []"
  "batches s cls = Some d \<Longrightarrow> batches_of s cls = d"
  by (simp_all add: batches_of_def)

lemma get_batch_existing:
  "map_of (batches_of s cls) (options_key opts) = Some b \<Longrightarrow> get_batch cls opts s = Ok b s"
  by (cases "batches s cls") (simp_all add: get_batch_def Let_def)

lemma get_batch_frame:
  "commit_batches (state_of (get_batch cls opts s)) = commit_batches s
   \<and> tx_store (state_of (get_batch cls opts s)) = tx_store s
   \<and> futs (state_of (get_batch cls opts s)) = futs s
   \<and> next_future (state_of (get_batch cls opts s)) = next_future s
   \<and> mutation_store (state_of (get_batch cls opts s)) = mutation_store s
   \<and> next_mutation (state_of (get_batch cls opts s)) = next_mutation s
   \<and> calls (state_of (get_batch cls opts s)) = calls s
   \<and> rpcs (state_of (get_batch cls opts s)) = rpcs s"
  by (cases cls; cases "batches s cls")
     (auto simp: get_batch_def Let_def new_LookupBatch_def new_NonTransactionalCommitBatch_def
        add_idle_def split: option.splits)

lemma get_batch_commit_ok:
  assumes "check_unsupported_options opts = None"
  shows "\<exists>b s1. get_batch NonTransactionalCommitBatchCls opts s = Ok b s1
     \<and> map_of (batches_of s1 NonTransactionalCommitBatchCls) (options_key opts) = Some b"
proof (cases "map_of (batches_of s NonTransactionalCommitBatchCls) (options_key opts)")
  case (Some b)
  then show ?thesis using get_batch_existing by blast
next
  case None
  then show ?thesis using assms
    by (cases "batches s NonTransactionalCommitBatchCls")
       (auto simp: get_batch_def Let_def new_NonTransactionalCommitBatch_def add_idle_def
          AList.update_conv')
qed

lemma NonTransactionalCommitBatch_put_appends:
  "\<exists>s2. NonTransactionalCommitBatch_put b entity s1 = Ok (next_future s1) s2
     \<and> commit_batches s2 = commit_batches s1 \<and> tx_store s2 = tx_store s1
     \<and> batches s2 = batches s1
     \<and> mutations (commit_store s2 b) = mutations (commit_store s1 b) @ [next_mutation s1]
     \<and> futures (commit_store s2 b) = futures (commit_store s1 b) @ [next_future s1]
     \<and> mutation_store s2 (next_mutation s1) = Upsert entity"
  by (simp add: NonTransactionalCommitBatch_put_def prims Let_def)

lemma NonTransactionalCommitBatch_delete_appends:
  "\<exists>s2. NonTransactionalCommitBatch_delete b k s1 = Ok (next_future s1) s2
     \<and> commit_batches s2 = commit_batches s1 \<and> tx_store s2 = tx_store s1
     \<and> batches s2 = batches s1
     \<and> mutations (commit_store s2 b) = mutations (commit_store s1 b) @ [next_mutation s1]
     \<and> futures (commit_store s2 b) = futures (commit_store s1 b) @ [next_future s1]
     \<and> mutation_store s2 (next_mutation s1) = Delete k"
  by (simp add: NonTransactionalCommitBatch_delete_def prims Let_def)

lemma put_nontransactional_frame:
  "commit_batches (state_of (bind_result (get_batch NonTransactionalCommitBatchCls opts s)
       (\<lambda>batch s1. NonTransactionalCommitBatch_put batch entity s1))) = commit_batches s
   \<and> tx_store (state_of (bind_result (get_batch NonTransactionalCommitBatchCls opts s)
       (\<lambda>batch s1. NonTransactionalCommitBatch_put batch entity s1))) = tx_store s"
proof (cases "get_batch NonTransactionalCommitBatchCls opts s")
  case (Ok b s1)
  then show ?thesis
    using get_batch_frame[of NonTransactionalCommitBatchCls opts s]
      NonTransactionalCommitBatch_put_appends[of b entity s1]
    by auto
next
  case (Raise e s1)
  then show ?thesis using get_batch_frame[of NonTransactionalCommitBatchCls opts s] by auto
qed

lemma delete_nontransactional_frame:
  "commit_batches (state_of (bind_result (get_batch NonTransactionalCommitBatchCls opts s)
       (\<lambda>batch s1. NonTransactionalCommitBatch_delete batch k s1))) = commit_batches s
   \<and> tx_store (state_of (bind_result (get_batch NonTransactionalCommitBatchCls opts s)
       (\<lambda>batch s1. NonTransactionalCommitBatch_delete batch k s1))) = tx_store s"
proof (cases "get_batch NonTransactionalCommitBatchCls opts s")
  case (Ok b s1)
  then show ?thesis
    using get_batch_frame[of NonTransactionalCommitBatchCls opts s]
      NonTransactionalCommitBatch_delete_appends[of b k s1]
    by auto
next
  case (Raise e s1)
  then show ?thesis using get_batch_frame[of NonTransactionalCommitBatchCls opts s] by auto
qed

lemma put_nontransactional_ok:
  assumes "check_unsupported_options opts = None"
  shows "\<exists>f b s2. bind_result (get_batch NonTransactionalCommitBatchCls opts s)
       (\<lambda>batch s1. NonTransactionalCommitBatch_put batch entity s1) = Ok f s2
     \<and> map_of (batches_of s2 NonTransactionalCommitBatchCls) (options_key opts) = Some b
     \<and> mutations (commit_store s2 b) \<noteq> []
     \<and> mutation_store s2 (last (mutations (commit_store s2 b))) = Upsert entity
     \<and> last (futures (commit_store s2 b)) = f"
proof -
  obtain b s1 where g: "get_batch NonTransactionalCommitBatchCls opts s = Ok b s1"
      "map_of (batches_of s1 NonTransactionalCommitBatchCls) (options_key opts) = Some b"
    using get_batch_commit_ok[OF assms, of s] by blast
  obtain s2 where p: "NonTransactionalCommitBatch_put b entity s1 = Ok (next_future s1) s2"
     "batches s2 = batches s1"
     "mutations (commit_store s2 b) = mutations (commit_store s1 b) @ [next_mutation s1]"
     "futures (commit_store s2 b) = futures (commit_store s1 b) @ [next_future s1]"
     "mutation_store s2 (next_mutation s1) = Upsert entity"
    using NonTransactionalCommitBatch_put_appends[of b entity s1] by blast
  have "batches_of s2 = batches_of s1" using p(2) by (simp add: batches_of_def fun_eq_iff)
  then show ?thesis using g p by simp
qed

lemma delete_nontransactional_ok:
  assumes "check_unsupported_options opts = None"
  shows "\<exists>f b s2. bind_result (get_batch NonTransactionalCommitBatchCls opts s)
       (\<lambda>batch s1. NonTransactionalCommitBatch_delete batch k s1) = Ok f s2
     \<and> map_of (batches_of s2 NonTransactionalCommitBatchCls) (options_key opts) = Some b
     \<and> mutations (commit_store s2 b) \<noteq> []
     \<and> mutation_store s2 (last (mutations (commit_store s2 b))) = Delete k
     \<and> last (futures (commit_store s2 b)) = f"
proof -
  obtain b s1 where g: "get_batch NonTransactionalCommitBatchCls opts s = Ok b s1"
      "map_of (batches_of s1 NonTransactionalCommitBatchCls) (options_key opts) = Some b"
    using get_batch_commit_ok[OF assms, of s] by blast
  obtain s2 where p: "NonTransactionalCommitBatch_delete b k s1 = Ok (next_future s1) s2"
     "batches s2 = batches s1"
     "mutations (commit_store s2 b) = mutations (commit_store s1 b) @ [next_mutation s1]"
     "futures (commit_store s2 b) = futures (commit_store s1 b) @ [next_future s1]"
     "mutation_store s2 (next_mutation s1) = Delete k"
    using NonTransactionalCommitBatch_delete_appends[of b k s1] by blast
  have "batches_of s2 = batches_of s1" using p(2) by (simp add: batches_of_def fun_eq_iff)
  then show ?thesis using g p by simp
qed

text \<open>
  C9. When the options of a \<^verbatim>\<open>put\<close> or a \<^verbatim>\<open>delete\<close> have no \<^verbatim>\<open>transaction\<close> key, the
  transaction is the one of the context. When that transaction is set (a value Python
  takes as true), the call is the call on the commit batch of that transaction, no
  batch of the option-keyed registry is created or changed, and with no other option
  the mutation is the last one of the batch registered for the transaction. When it is
  not set, the call is the call on the non-transactional batch of the options, the
  registry of the transactions is untouched, and with supported options the mutation is
  the last one of the batch registered under the options key.
\<close>

theorem put_delete_follow_context_transaction:
  assumes "''transaction'' \<notin> fst ` set opts"
  shows "get_transaction opts s = ctx_transaction s
    \<and> (truthy (ctx_transaction s) \<longrightarrow>
         put entity opts s = bind_result (get_commit_batch (ctx_transaction s) opts s)
            (\<lambda>batch s1. TransactionalCommitBatch_put batch entity s1)
       \<and> delete k opts s = bind_result (get_commit_batch (ctx_transaction s) opts s)
            (\<lambda>batch s1. TransactionalCommitBatch_delete batch k s1)
       \<and> batches (state_of (put entity opts s)) = batches s
       \<and> commit_store (state_of (put entity opts s)) = commit_store s
       \<and> batches (state_of (delete k opts s)) = batches s
       \<and> commit_store (state_of (delete k opts s)) = commit_store s
       \<and> (opts = [] \<longrightarrow>
            (\<exists>f b s2. put entity opts s = Ok f s2
               \<and> map_of (commit_batches s2) (ctx_transaction s) = Some b
               \<and> mutations (tx_store s2 b) \<noteq> []
               \<and> mutation_store s2 (last (mutations (tx_store s2 b))) = Upsert entity
               \<and> last (futures (tx_store s2 b)) = f)
          \<and> (\<exists>f b s2. delete k opts s = Ok f s2
               \<and> map_of (commit_batches s2) (ctx_transaction s) = Some b
               \<and> mutations (tx_store s2 b) \<noteq> []
               \<and> mutation_store s2 (last (mutations (tx_store s2 b))) = Delete k
               \<and> last (futures (tx_store s2 b)) = f)))
    \<and> (\<not> truthy (ctx_transaction s) \<longrightarrow>
         put entity opts s = bind_result (get_batch NonTransactionalCommitBatchCls opts s)
            (\<lambda>batch s1. NonTransactionalCommitBatch_put batch entity s1)
       \<and> delete k opts s = bind_result (get_batch NonTransactionalCommitBatchCls opts s)
            (\<lambda>batch s1. NonTransactionalCommitBatch_delete batch k s1)
       \<and> commit_batches (state_of (put entity opts s)) = commit_batches s
       \<and> tx_store (state_of (put entity opts s)) = tx_store s
       \<and> commit_batches (state_of (delete k opts s)) = commit_batches s
       \<and> tx_store (state_of (delete k opts s)) = tx_store s
       \<and> (check_unsupported_options opts = None \<longrightarrow>
            (\<exists>f b s2. put entity opts s = Ok f s2
               \<and> map_of (batches_of s2 NonTransactionalCommitBatchCls) (options_key opts) = Some b
               \<and> mutations (commit_store s2 b) \<noteq> []
               \<and> mutation_store s2 (last (mutations (commit_store s2 b))) = Upsert entity
               \<and> last (futures (commit_store s2 b)) = f)
          \<and> (\<exists>f b s2. delete k opts s = Ok f s2
               \<and> map_of (batches_of s2 NonTransactionalCommitBatchCls) (options_key opts) = Some b
               \<and> mutations (commit_store s2 b) \<noteq> []
               \<and> mutation_store s2 (last (mutations (commit_store s2 b))) = Delete k
               \<and> last (futures (commit_store s2 b)) = f)))"
proof -
  have t: "get_transaction opts s = ctx_transaction s"
    using assms by (rule get_transaction_absent)
  have p1: "truthy (ctx_transaction s) \<Longrightarrow>
      put entity opts s = bind_result (get_commit_batch (ctx_transaction s) opts s)
            (\<lambda>batch s1. TransactionalCommitBatch_put batch entity s1)"
    and d1: "truthy (ctx_transaction s) \<Longrightarrow>
      delete k opts s = bind_result (get_commit_batch (ctx_transaction s) opts s)
            (\<lambda>batch s1. TransactionalCommitBatch_delete batch k s1)"
    and p2: "\<not> truthy (ctx_transaction s) \<Longrightarrow>
      put entity opts s = bind_result (get_batch NonTransactionalCommitBatchCls opts s)
            (\<lambda>batch s1. NonTransactionalCommitBatch_put batch entity s1)"
    and d2: "\<not> truthy (ctx_transaction s) \<Longrightarrow>
      delete k opts s = bind_result (get_batch NonTransactionalCommitBatchCls opts s)
            (\<lambda>batch s1. NonTransactionalCommitBatch_delete batch k s1)"
    using t by (simp_all add: put_def delete_def)
  show ?thesis
  proof (cases "truthy (ctx_transaction s)")
    case True
    have e1: "opts = [] \<Longrightarrow> \<exists>f b s2. put entity opts s = Ok f s2
               \<and> map_of (commit_batches s2) (ctx_transaction s) = Some b
               \<and> mutations (tx_store s2 b) \<noteq> []
               \<and> mutation_store s2 (last (mutations (tx_store s2 b))) = Upsert entity
               \<and> last (futures (tx_store s2 b)) = f"
      using put_transactional_empty[of "ctx_transaction s" s entity]
      unfolding p1[OF True] by simp
    have e2: "opts = [] \<Longrightarrow> \<exists>f b s2. delete k opts s = Ok f s2
               \<and> map_of (commit_batches s2) (ctx_transaction s) = Some b
               \<and> mutations (tx_store s2 b) \<noteq> []
               \<and> mutation_store s2 (last (mutations (tx_store s2 b))) = Delete k
               \<and> last (futures (tx_store s2 b)) = f"
      using delete_transactional_empty[of "ctx_transaction s" s k]
      unfolding d1[OF True] by simp
    have f1: "batches (state_of (put entity opts s)) = batches s
       \<and> commit_store (state_of (put entity opts s)) = commit_store s"
      using put_transactional_frame[of "ctx_transaction s" opts s entity]
      unfolding p1[OF True] by simp
    have f2: "batches (state_of (delete k opts s)) = batches s
       \<and> commit_store (state_of (delete k opts s)) = commit_store s"
      using delete_transactional_frame[of "ctx_transaction s" opts s k]
      unfolding d1[OF True] by simp
    show ?thesis
      using t True p1[OF True] d1[OF True] e1 e2 f1 f2 by blast
  next
    case False
    have e1: "check_unsupported_options opts = None \<Longrightarrow> \<exists>f b s2. put entity opts s = Ok f s2
               \<and> map_of (batches_of s2 NonTransactionalCommitBatchCls) (options_key opts) = Some b
               \<and> mutations (commit_store s2 b) \<noteq> []
               \<and> mutation_store s2 (last (mutations (commit_store s2 b))) = Upsert entity
               \<and> last (futures (commit_store s2 b)) = f"
      using put_nontransactional_ok[of opts s entity]
      unfolding p2[OF False] by simp
    have e2: "check_unsupported_options opts = None \<Longrightarrow> \<exists>f b s2. delete k opts s = Ok f s2
               \<and> map_of (batches_of s2 NonTransactionalCommitBatchCls) (options_key opts) = Some b
               \<and> mutations (commit_store s2 b) \<noteq> []
               \<and> mutation_store s2 (last (mutations (commit_store s2 b))) = Delete k
               \<and> last (futures (commit_store s2 b)) = f"
      using delete_nontransactional_ok[of opts s k]
      unfolding d2[OF False] by simp
    have f1: "commit_batches (state_of (put entity opts s)) = commit_batches s
       \<and> tx_store (state_of (put entity opts s)) = tx_store s"
      using put_nontransactional_frame[of opts s entity]
      unfolding p2[OF False] by simp
    have f2: "commit_batches (state_of (delete k opts s)) = commit_batches s
       \<and> tx_store (state_of (delete k opts s)) = tx_store s"
      using delete_nontransactional_frame[of opts s k]
      unfolding d2[OF False] by simp
    show ?thesis
      using t False p2[OF False] d2[OF False] e1 e2 f1 f2 by blast
  qed
qed

lemmas api_defs = put_def delete_def lookup_def commit_def get_commit_batch_def get_batch_def
  get_transaction_def new_TransactionalCommitBatch_def new_NonTransactionalCommitBatch_def
  new_LookupBatch_def TransactionalCommitBatch_put_def TransactionalCommitBatch_delete_def
  NonTransactionalCommitBatch_put_def NonTransactionalCommitBatch_delete_def
  LookupBatch_add_def batches_of_def options_key_def
  OPTIONS_NOT_IMPLEMENTED_def OPTIONS_SUPPORTED_def complete_def

lemmas example_defs = key1_def key2_def incomplete_key_def empty_key_def entity_of_def
  txn1_def in_txn1_def init_def

theorem put_delete_follow_context_transaction_witness:
  "''transaction'' \<notin> fst ` set ([] :: options)
   \<and> truthy (ctx_transaction in_txn1)
   \<and> get_transaction [] in_txn1 = txn1
   \<and> is_ok (put (entity_of key1) [] in_txn1)
   \<and> commit_batches (state_of (put (entity_of key1) [] in_txn1)) = [(txn1, 0)]
   \<and> map (mutation_store (state_of (put (entity_of key1) [] in_txn1)))
        (mutations (tx_store (state_of (put (entity_of key1) [] in_txn1)) 0))
        = [Upsert (entity_of key1)]
   \<and> batches (state_of (put (entity_of key1) [] in_txn1)) = batches in_txn1
   \<and> \<not> truthy (ctx_transaction init)
   \<and> check_unsupported_options [] = None
   \<and> is_ok (delete key1 [] init)
   \<and> batches_of (state_of (delete key1 [] init)) NonTransactionalCommitBatchCls = [([], 0)]
   \<and> map (mutation_store (state_of (delete key1 [] init)))
        (mutations (commit_store (state_of (delete key1 [] init)) 0)) = [Delete key1]
   \<and> commit_batches (state_of (delete key1 [] init)) = commit_batches init"
  using put_delete_follow_context_transaction[of "[]" in_txn1 "entity_of key1" key1]
    put_delete_follow_context_transaction[of "[]" init "entity_of key1" key1]
  by (simp add: api_defs prims example_defs Let_def)

lemma todo_extend_map_of:
  "map_of (todo_extend k fs td) k' =
     (if k' = k then Some ((case map_of td k of None \<Rightarrow> [] | Some gs \<Rightarrow> gs) @ fs)
      else map_of td k')"
  by (induction td) auto

lemma get_batch_lookup:
  "\<exists>b s1. get_batch LookupBatchCls opts s = Ok b s1
     \<and> map_of (batches_of s1 LookupBatchCls) (options_key opts) = Some b
     \<and> futs s1 = futs s \<and> next_future s1 = next_future s \<and> calls s1 = calls s
     \<and> rpcs s1 = rpcs s \<and> ctx_transaction s1 = ctx_transaction s
     \<and> (map_of (batches_of s LookupBatchCls) (options_key opts) = None \<longrightarrow>
          b = next_lookup s \<and> lookup_store s1 b = \<lparr>lb_options = opts, todo = []\<rparr>
          \<and> idlers s1 = idlers s @ [BatchIdle LookupBatchCls (options_key opts)])
     \<and> (map_of (batches_of s LookupBatchCls) (options_key opts) \<noteq> None \<longrightarrow> s1 = s)"
proof (cases "map_of (batches_of s LookupBatchCls) (options_key opts)")
  case (Some b)
  then show ?thesis using get_batch_existing[OF Some] by simp
next
  case None
  then show ?thesis
    by (cases "batches s LookupBatchCls")
       (auto simp: get_batch_def Let_def new_LookupBatch_def add_idle_def AList.update_conv')
qed

lemma LookupBatch_add_registers:
  "\<exists>s2. LookupBatch_add b k s1 = Ok (next_future s1) s2
     \<and> batches s2 = batches s1 \<and> calls s2 = calls s1 \<and> rpcs s2 = rpcs s1
     \<and> idlers s2 = idlers s1 \<and> ctx_transaction s2 = ctx_transaction s1
     \<and> futs s2 (next_future s1) = Pending
     \<and> lb_options (lookup_store s2 b) = lb_options (lookup_store s1 b)
     \<and> todo (lookup_store s2 b) = todo_extend k [next_future s1] (todo (lookup_store s1 b))"
  by (simp add: LookupBatch_add_def prims Let_def SerializeToString_def)

lemma batches_of_cong: "batches s2 = batches s1 \<Longrightarrow> batches_of s2 = batches_of s1"
  by (simp add: batches_of_def fun_eq_iff)

lemma lookup_registers:
  assumes "check_unsupported_options opts = None"
  shows "\<exists>f b fs s2. lookup k opts s = Ok f s2
     \<and> map_of (batches_of s2 LookupBatchCls) (options_key opts) = Some b
     \<and> map_of (todo (lookup_store s2 b)) k = Some fs \<and> f \<in> set fs
     \<and> futs s2 f = Pending \<and> calls s2 = calls s \<and> rpcs s2 = rpcs s
     \<and> ctx_transaction s2 = ctx_transaction s
     \<and> (map_of (batches_of s LookupBatchCls) (options_key opts) = None \<longrightarrow>
          lb_options (lookup_store s2 b) = opts
          \<and> idlers s2 = idlers s @ [BatchIdle LookupBatchCls (options_key opts)])"
proof -
  obtain b s1 where g: "get_batch LookupBatchCls opts s = Ok b s1"
     "map_of (batches_of s1 LookupBatchCls) (options_key opts) = Some b"
     "futs s1 = futs s" "next_future s1 = next_future s" "calls s1 = calls s"
     "rpcs s1 = rpcs s" "ctx_transaction s1 = ctx_transaction s"
     "map_of (batches_of s LookupBatchCls) (options_key opts) = None \<longrightarrow>
          b = next_lookup s \<and> lookup_store s1 b = \<lparr>lb_options = opts, todo = []\<rparr>
          \<and> idlers s1 = idlers s @ [BatchIdle LookupBatchCls (options_key opts)]"
    using get_batch_lookup[of opts s] by (elim exE conjE) (rule that; assumption)
  obtain s2 where a: "LookupBatch_add b k s1 = Ok (next_future s1) s2"
     "batches s2 = batches s1" "calls s2 = calls s1" "rpcs s2 = rpcs s1"
     "idlers s2 = idlers s1" "ctx_transaction s2 = ctx_transaction s1"
     "futs s2 (next_future s1) = Pending"
     "lb_options (lookup_store s2 b) = lb_options (lookup_store s1 b)"
     "todo (lookup_store s2 b) = todo_extend k [next_future s1] (todo (lookup_store s1 b))"
    using LookupBatch_add_registers[of b k s1] by (elim exE conjE) (rule that; assumption)
  have l: "lookup k opts s = Ok (next_future s1) s2"
    using assms g(1) a(1) by (simp add: lookup_def)
  have m: "map_of (todo (lookup_store s2 b)) k =
      Some ((case map_of (todo (lookup_store s1 b)) k of None \<Rightarrow> [] | Some gs \<Rightarrow> gs) @ [next_future s1])"
    by (simp add: a(9) todo_extend_map_of)
  show ?thesis
    using l m g a batches_of_cong[OF a(2)] by auto
qed

lemma idle_lookup_raises:
  assumes "map_of (batches_of s2 LookupBatchCls) okey = Some b"
    and "get_transaction (lb_options (lookup_store s2 b)) s2 \<noteq> OptNone"
    and "options_get (lb_options (lookup_store s2 b)) ''read_consistency'' = OptInt EVENTUAL"
  shows "\<exists>s3. idle LookupBatchCls okey s2 =
            Raise (ValueError ''read_consistency must be EVENTUAL when in transaction'') s3
     \<and> calls s3 = calls s2 \<and> rpcs s3 = rpcs s2 \<and> futs s3 = futs s2
     \<and> lookup_store s3 = lookup_store s2
     \<and> map_of (batches_of s3 LookupBatchCls) okey = None"
  using assms
  by (auto simp: idle_def LookupBatch_idle_callback_def get_read_options_def Let_def
      get_transaction_def batches_of_def AList.delete_conv' split: option.splits)

lemmas api_defs2 = api_defs idle_def LookupBatch_idle_callback_def get_read_options_def
  options_get_def SerializeToString_def ParseFromString_def EVENTUAL_def

text \<open>
  The claim C2 as stated fails: the \<^verbatim>\<open>lookup\<close> call returns, with its batch created and
  registered, its key enqueued and the flush scheduled.
\<close>

theorem lookup_eventual_in_transaction_counterexample:
  "is_ok (lookup key1 [(''transaction'', txn1), (''read_consistency'', OptInt EVENTUAL)] init)
   \<and> batches_of (state_of (lookup key1 [(''transaction'', txn1), (''read_consistency'', OptInt EVENTUAL)] init)) LookupBatchCls
      = [([(''read_consistency'', OptInt EVENTUAL), (''transaction'', txn1)], 0)]
   \<and> todo (lookup_store (state_of (lookup key1 [(''transaction'', txn1), (''read_consistency'', OptInt EVENTUAL)] init)) 0)
      = [(key1, [0])]
   \<and> idlers (state_of (lookup key1 [(''transaction'', txn1), (''read_consistency'', OptInt EVENTUAL)] init))
      = [BatchIdle LookupBatchCls [(''read_consistency'', OptInt EVENTUAL), (''transaction'', txn1)]]"
  by (simp add: api_defs2 prims example_defs Let_def)

lemma fold_set_exception_futs:
  "futs (fold (\<lambda>f. set_exception f e) fl s) f =
     (if f \<in> set fl \<and> \<not> is_done (futs s f) then Exception e else futs s f)"
  by (induction fl arbitrary: s) (auto simp: set_exception_def)

lemma set_exceptions_futs:
  "futs (set_exceptions fl e s) f =
     (if f \<in> set fl \<and> \<not> is_done (futs s f) then Exception e else futs s f)"
  by (simp add: set_exceptions_def fold_set_exception_futs)

lemma fold_set_result_futs:
  "futs (fold (\<lambda>f. set_result f v) fl s) f =
     (if f \<in> set fl \<and> \<not> is_done (futs s f) then Result v else futs s f)"
  by (induction fl arbitrary: s) (auto simp: set_result_def)

lemma set_results_futs:
  "futs (set_results fl v s) f =
     (if f \<in> set fl \<and> \<not> is_done (futs s f) then Result v else futs s f)"
  by (simp add: set_results_def fold_set_result_futs)

lemma set_exception_frame [simp]:
  "mutation_store (set_exception f e s) = mutation_store s"
  "lookup_store (set_exception f e s) = lookup_store s"
  "commit_store (set_exception f e s) = commit_store s"
  "tx_store (set_exception f e s) = tx_store s"
  "batches (set_exception f e s) = batches s"
  "commit_batches (set_exception f e s) = commit_batches s"
  "idlers (set_exception f e s) = idlers s"
  "rpcs (set_exception f e s) = rpcs s"
  "calls (set_exception f e s) = calls s"
  "tasklets (set_exception f e s) = tasklets s"
  "next_future (set_exception f e s) = next_future s"
  "next_mutation (set_exception f e s) = next_mutation s"
  "next_lookup (set_exception f e s) = next_lookup s"
  "next_commit (set_exception f e s) = next_commit s"
  "next_tx (set_exception f e s) = next_tx s"
  "ctx_transaction (set_exception f e s) = ctx_transaction s"
  by (simp_all add: set_exception_def)

lemma set_result_frame [simp]:
  "mutation_store (set_result f v s) = mutation_store s"
  "lookup_store (set_result f v s) = lookup_store s"
  "commit_store (set_result f v s) = commit_store s"
  "tx_store (set_result f v s) = tx_store s"
  "batches (set_result f v s) = batches s"
  "commit_batches (set_result f v s) = commit_batches s"
  "idlers (set_result f v s) = idlers s"
  "rpcs (set_result f v s) = rpcs s"
  "calls (set_result f v s) = calls s"
  "tasklets (set_result f v s) = tasklets s"
  "next_future (set_result f v s) = next_future s"
  "next_mutation (set_result f v s) = next_mutation s"
  "next_lookup (set_result f v s) = next_lookup s"
  "next_commit (set_result f v s) = next_commit s"
  "next_tx (set_result f v s) = next_tx s"
  "ctx_transaction (set_result f v s) = ctx_transaction s"
  by (simp_all add: set_result_def)

lemma fold_set_exception_frame:
  "mutation_store (fold (\<lambda>f. set_exception f e) fl s) = mutation_store s
   \<and> lookup_store (fold (\<lambda>f. set_exception f e) fl s) = lookup_store s
   \<and> commit_store (fold (\<lambda>f. set_exception f e) fl s) = commit_store s
   \<and> tx_store (fold (\<lambda>f. set_exception f e) fl s) = tx_store s
   \<and> batches (fold (\<lambda>f. set_exception f e) fl s) = batches s
   \<and> commit_batches (fold (\<lambda>f. set_exception f e) fl s) = commit_batches s
   \<and> idlers (fold (\<lambda>f. set_exception f e) fl s) = idlers s
   \<and> rpcs (fold (\<lambda>f. set_exception f e) fl s) = rpcs s
   \<and> calls (fold (\<lambda>f. set_exception f e) fl s) = calls s
   \<and> tasklets (fold (\<lambda>f. set_exception f e) fl s) = tasklets s
   \<and> next_future (fold (\<lambda>f. set_exception f e) fl s) = next_future s
   \<and> next_mutation (fold (\<lambda>f. set_exception f e) fl s) = next_mutation s
   \<and> next_lookup (fold (\<lambda>f. set_exception f e) fl s) = next_lookup s
   \<and> next_commit (fold (\<lambda>f. set_exception f e) fl s) = next_commit s
   \<and> next_tx (fold (\<lambda>f. set_exception f e) fl s) = next_tx s
   \<and> ctx_transaction (fold (\<lambda>f. set_exception f e) fl s) = ctx_transaction s"
  by (induction fl arbitrary: s) simp_all

lemma fold_set_result_frame:
  "mutation_store (fold (\<lambda>f. set_result f v) fl s) = mutation_store s
   \<and> lookup_store (fold (\<lambda>f. set_result f v) fl s) = lookup_store s
   \<and> commit_store (fold (\<lambda>f. set_result f v) fl s) = commit_store s
   \<and> tx_store (fold (\<lambda>f. set_result f v) fl s) = tx_store s
   \<and> batches (fold (\<lambda>f. set_result f v) fl s) = batches s
   \<and> commit_batches (fold (\<lambda>f. set_result f v) fl s) = commit_batches s
   \<and> idlers (fold (\<lambda>f. set_result f v) fl s) = idlers s
   \<and> rpcs (fold (\<lambda>f. set_result f v) fl s) = rpcs s
   \<and> calls (fold (\<lambda>f. set_result f v) fl s) = calls s
   \<and> tasklets (fold (\<lambda>f. set_result f v) fl s) = tasklets s
   \<and> next_future (fold (\<lambda>f. set_result f v) fl s) = next_future s
   \<and> next_mutation (fold (\<lambda>f. set_result f v) fl s) = next_mutation s
   \<and> next_lookup (fold (\<lambda>f. set_result f v) fl s) = next_lookup s
   \<and> next_commit (fold (\<lambda>f. set_result f v) fl s) = next_commit s
   \<and> next_tx (fold (\<lambda>f. set_result f v) fl s) = next_tx s
   \<and> ctx_transaction (fold (\<lambda>f. set_result f v) fl s) = ctx_transaction s"
  by (induction fl arbitrary: s) simp_all

lemma set_exceptions_frame [simp]:
  "mutation_store (set_exceptions fl e s) = mutation_store s"
  "lookup_store (set_exceptions fl e s) = lookup_store s"
  "commit_store (set_exceptions fl e s) = commit_store s"
  "tx_store (set_exceptions fl e s) = tx_store s"
  "batches (set_exceptions fl e s) = batches s"
  "commit_batches (set_exceptions fl e s) = commit_batches s"
  "idlers (set_exceptions fl e s) = idlers s"
  "rpcs (set_exceptions fl e s) = rpcs s"
  "calls (set_exceptions fl e s) = calls s"
  "tasklets (set_exceptions fl e s) = tasklets s"
  "next_future (set_exceptions fl e s) = next_future s"
  "next_mutation (set_exceptions fl e s) = next_mutation s"
  "next_lookup (set_exceptions fl e s) = next_lookup s"
  "next_commit (set_exceptions fl e s) = next_commit s"
  "next_tx (set_exceptions fl e s) = next_tx s"
  "ctx_transaction (set_exceptions fl e s) = ctx_transaction s"
  by (simp_all add: set_exceptions_def fold_set_exception_frame)

lemma set_results_frame [simp]:
  "mutation_store (set_results fl v s) = mutation_store s"
  "lookup_store (set_results fl v s) = lookup_store s"
  "commit_store (set_results fl v s) = commit_store s"
  "tx_store (set_results fl v s) = tx_store s"
  "batches (set_results fl v s) = batches s"
  "commit_batches (set_results fl v s) = commit_batches s"
  "idlers (set_results fl v s) = idlers s"
  "rpcs (set_results fl v s) = rpcs s"
  "calls (set_results fl v s) = calls s"
  "tasklets (set_results fl v s) = tasklets s"
  "next_future (set_results fl v s) = next_future s"
  "next_mutation (set_results fl v s) = next_mutation s"
  "next_lookup (set_results fl v s) = next_lookup s"
  "next_commit (set_results fl v s) = next_commit s"
  "next_tx (set_results fl v s) = next_tx s"
  "ctx_transaction (set_results fl v s) = ctx_transaction s"
  by (simp_all add: set_results_def fold_set_result_frame)

lemma upsert_key_copy_key [simp]: "upsert_key (copy_key k m) = k"
  by (cases m) simp_all

lemma allocate_results_mutation_other:
  "m \<notin> set muts \<Longrightarrow> mutation_store (allocate_results muts keys fl s) m = mutation_store s m"
  by (induction muts keys fl s rule: allocate_results.induct) auto

lemma allocate_results_future_other:
  "f \<notin> set fl \<Longrightarrow> futs (allocate_results muts keys fl s) f = futs s f"
  by (induction muts keys fl s rule: allocate_results.induct) (auto simp: set_result_def)

lemma allocate_results_mutation:
  "distinct muts \<Longrightarrow> i < length muts \<Longrightarrow> i < length keys \<Longrightarrow> i < length fl \<Longrightarrow>
   mutation_store (allocate_results muts keys fl s) (muts ! i)
     = copy_key (keys ! i) (mutation_store s (muts ! i))"
proof (induction muts keys fl s arbitrary: i rule: allocate_results.induct)
  case (1 mutation muts k keys future rest s)
  show ?case
  proof (cases i)
    case 0
    then show ?thesis using 1(2) by (simp add: allocate_results_mutation_other)
  next
    case (Suc j)
    have "muts ! j \<noteq> mutation" using 1(2,3) Suc by auto
    then show ?thesis using 1 Suc by simp
  qed
qed auto

lemma allocate_results_future:
  "distinct fl \<Longrightarrow> i < length muts \<Longrightarrow> i < length keys \<Longrightarrow> i < length fl \<Longrightarrow>
   futs s (fl ! i) = Pending \<Longrightarrow>
   futs (allocate_results muts keys fl s) (fl ! i) = Result (KeyValue (keys ! i))"
proof (induction muts keys fl s arbitrary: i rule: allocate_results.induct)
  case (1 mutation muts k keys future rest s)
  show ?case
  proof (cases i)
    case 0
    then show ?thesis using 1(2,6)
      by (simp add: allocate_results_future_other set_result_def)
  next
    case (Suc j)
    have "rest ! j \<noteq> future" using 1(2,5) Suc by auto
    then show ?thesis using 1 Suc by (simp add: set_result_def)
  qed
qed auto

lemma put_complete:
  assumes "complete (key entity)"
  shows "\<exists>s2. TransactionalCommitBatch_put self entity s = Ok (next_future s) s2
     \<and> futs s2 (next_future s) = Result PyNone
     \<and> incomplete_mutations (tx_store s2 self) = incomplete_mutations (tx_store s self)
     \<and> incomplete_futures (tx_store s2 self) = incomplete_futures (tx_store s self)
     \<and> allocating_ids (tx_store s2 self) = allocating_ids (tx_store s self)
     \<and> idlers s2 = idlers s \<and> calls s2 = calls s \<and> rpcs s2 = rpcs s"
  using assms by (simp add: TransactionalCommitBatch_put_def prims Let_def)

lemma put_incomplete:
  assumes "\<not> complete (key entity)"
  shows "\<exists>s2. TransactionalCommitBatch_put self entity s = Ok (next_future s) s2
     \<and> futs s2 (next_future s) = Pending
     \<and> mutation_store s2 (next_mutation s) = Upsert entity
     \<and> mutations (tx_store s2 self) = mutations (tx_store s self) @ [next_mutation s]
     \<and> incomplete_mutations (tx_store s2 self)
         = incomplete_mutations (tx_store s self) @ [next_mutation s]
     \<and> incomplete_futures (tx_store s2 self)
         = incomplete_futures (tx_store s self) @ [next_future s]
     \<and> idlers s2 = (if incomplete_mutations (tx_store s self) = []
                     then idlers s @ [AllocateIdle self] else idlers s)
     \<and> calls s2 = calls s \<and> rpcs s2 = rpcs s"
  using assms by (simp add: TransactionalCommitBatch_put_def prims Let_def)

text \<open>
  C7. A transactional \<^verbatim>\<open>put\<close> of an entity with a complete key resolves its future at
  once with \<^verbatim>\<open>None\<close> and touches neither the pending lists nor the event loop. With an
  incomplete key the future stays pending, the mutation and the future are appended to
  the pending lists, and the allocation idle callback is scheduled exactly when the
  pending list was empty. When an allocation round succeeds, the i-th allocated key is
  copied into the i-th mutation of the snapshot, in place, and resolves the i-th future
  of the snapshot (the snapshot holds distinct mutations and distinct pending futures);
  when it fails, the futures of the snapshot that are not done receive the exception
  and nothing else changes.
\<close>

theorem transactional_put_and_allocation:
  "(complete (key entity) \<longrightarrow>
      (\<exists>s2. TransactionalCommitBatch_put self entity s = Ok (next_future s) s2
        \<and> futs s2 (next_future s) = Result PyNone
        \<and> incomplete_mutations (tx_store s2 self) = incomplete_mutations (tx_store s self)
        \<and> incomplete_futures (tx_store s2 self) = incomplete_futures (tx_store s self)
        \<and> allocating_ids (tx_store s2 self) = allocating_ids (tx_store s self)
        \<and> idlers s2 = idlers s \<and> calls s2 = calls s \<and> rpcs s2 = rpcs s))
   \<and> (\<not> complete (key entity) \<longrightarrow>
      (\<exists>s2. TransactionalCommitBatch_put self entity s = Ok (next_future s) s2
        \<and> futs s2 (next_future s) = Pending
        \<and> mutation_store s2 (next_mutation s) = Upsert entity
        \<and> mutations (tx_store s2 self) = mutations (tx_store s self) @ [next_mutation s]
        \<and> incomplete_mutations (tx_store s2 self)
            = incomplete_mutations (tx_store s self) @ [next_mutation s]
        \<and> incomplete_futures (tx_store s2 self)
            = incomplete_futures (tx_store s self) @ [next_future s]
        \<and> idlers s2 = (if incomplete_mutations (tx_store s self) = []
                        then idlers s @ [AllocateIdle self] else idlers s)
        \<and> calls s2 = calls s \<and> rpcs s2 = rpcs s))
   \<and> (distinct muts \<and> distinct fl \<and> (\<forall>f \<in> set fl. futs s f = Pending) \<longrightarrow>
        (\<forall>i. i < length muts \<and> i < length keys \<and> i < length fl \<longrightarrow>
           mutation_store (allocate_ids_callback self (Inr keys) muts fl s) (muts ! i)
             = copy_key (keys ! i) (mutation_store s (muts ! i))
         \<and> upsert_key (mutation_store (allocate_ids_callback self (Inr keys) muts fl s) (muts ! i))
             = keys ! i
         \<and> futs (allocate_ids_callback self (Inr keys) muts fl s) (fl ! i)
             = Result (KeyValue (keys ! i)))
      \<and> (\<forall>f. f \<notin> set fl \<longrightarrow>
            futs (allocate_ids_callback self (Inr keys) muts fl s) f = futs s f))
   \<and> (\<forall>f. futs (allocate_ids_callback self (Inl e) muts fl s) f
          = (if f \<in> set fl \<and> \<not> is_done (futs s f) then Exception e else futs s f))
   \<and> mutation_store (allocate_ids_callback self (Inl e) muts fl s) = mutation_store s"
proof -
  have a: "\<And>i. distinct muts \<Longrightarrow> distinct fl \<Longrightarrow> \<forall>f \<in> set fl. futs s f = Pending \<Longrightarrow>
      i < length muts \<Longrightarrow> i < length keys \<Longrightarrow> i < length fl \<Longrightarrow>
           mutation_store (allocate_ids_callback self (Inr keys) muts fl s) (muts ! i)
             = copy_key (keys ! i) (mutation_store s (muts ! i))
         \<and> upsert_key (mutation_store (allocate_ids_callback self (Inr keys) muts fl s) (muts ! i))
             = keys ! i
         \<and> futs (allocate_ids_callback self (Inr keys) muts fl s) (fl ! i)
             = Result (KeyValue (keys ! i))"
    by (simp add: allocate_ids_callback_def allocate_results_mutation allocate_results_future)
  have b: "\<And>f. f \<notin> set fl \<Longrightarrow>
            futs (allocate_ids_callback self (Inr keys) muts fl s) f = futs s f"
    by (simp add: allocate_ids_callback_def allocate_results_future_other)
  have c: "\<And>f. futs (allocate_ids_callback self (Inl e) muts fl s) f
          = (if f \<in> set fl \<and> \<not> is_done (futs s f) then Exception e else futs s f)"
    by (simp add: allocate_ids_callback_def set_exceptions_futs)
  have d: "mutation_store (allocate_ids_callback self (Inl e) muts fl s) = mutation_store s"
    by (simp add: allocate_ids_callback_def)
  show ?thesis
    using put_complete[of entity self s] put_incomplete[of entity self s] a b c d
    by blast
qed

theorem transactional_put_and_allocation_witness:
  "complete (key (entity_of key1))
   \<and> futs (state_of (TransactionalCommitBatch_put 0 (entity_of key1) init)) 0 = Result PyNone
   \<and> idlers (state_of (TransactionalCommitBatch_put 0 (entity_of key1) init)) = []
   \<and> \<not> complete (key (entity_of incomplete_key))
   \<and> futs (state_of (TransactionalCommitBatch_put 0 (entity_of incomplete_key) init)) 0 = Pending
   \<and> incomplete_mutations
        (tx_store (state_of (TransactionalCommitBatch_put 0 (entity_of incomplete_key) init)) 0) = [0]
   \<and> idlers (state_of (TransactionalCommitBatch_put 0 (entity_of incomplete_key) init))
        = [AllocateIdle 0]
   \<and> distinct [0::nat]
   \<and> futs (state_of (TransactionalCommitBatch_put 0 (entity_of incomplete_key) init)) ([0] ! 0)
        = Pending
   \<and> mutation_store (allocate_ids_callback 0 (Inr [key1]) [0] [0]
        (state_of (TransactionalCommitBatch_put 0 (entity_of incomplete_key) init))) 0
        = Upsert (entity_of key1)
   \<and> futs (allocate_ids_callback 0 (Inr [key1]) [0] [0]
        (state_of (TransactionalCommitBatch_put 0 (entity_of incomplete_key) init))) 0
        = Result (KeyValue key1)
   \<and> futs (allocate_ids_callback 0 (Inl (RpcError ''unavailable'')) [0] [0]
        (state_of (TransactionalCommitBatch_put 0 (entity_of incomplete_key) init))) 0
        = Exception (RpcError ''unavailable'')"
  using transactional_put_and_allocation
      [of "entity_of key1" 0 init "[0]" "[0]" "[key1]" "RpcError ''unavailable''"]
    transactional_put_and_allocation
      [of "entity_of incomplete_key" 0
          "state_of (TransactionalCommitBatch_put 0 (entity_of incomplete_key) init)"
          "[0]" "[0]" "[key1]" "RpcError ''unavailable''"]
    transactional_put_and_allocation
      [of "entity_of incomplete_key" 0 init "[0]" "[0]" "[key1]" "RpcError ''unavailable''"]
  by (simp add: api_defs prims example_defs Let_def allocate_ids_callback_def
       set_exceptions_def)

lemma slot_todo_extend:
  "slot (todo_extend k fs td) k' = (if k' = k then slot td k @ fs else slot td k')"
  by (simp add: slot_def todo_extend_map_of)

lemma slot_subset: "set (slot td k) \<subseteq> set (concat (map snd td))"
  by (induction td) (auto simp: slot_def)

lemma slot_disjoint:
  "distinct (concat (map snd td)) \<Longrightarrow> f \<in> set (slot td k) \<Longrightarrow> f \<in> set (slot td k') \<Longrightarrow> k = k'"
proof (induction td)
  case Nil
  then show ?case by (simp add: slot_def)
next
  case (Cons p td)
  obtain a gs where p: "p = (a, gs)" by (cases p)
  have d: "set gs \<inter> set (concat (map snd td)) = {}" "distinct (concat (map snd td))"
    using Cons.prems(1) p by auto
  have s: "\<And>x. slot (p # td) x = (if x = a then gs else slot td x)"
    by (simp add: slot_def p)
  show ?case
  proof (cases "k = a")
    case True
    show ?thesis
    proof (cases "k' = a")
      case True
      with \<open>k = a\<close> show ?thesis by simp
    next
      case False
      have "f \<in> set gs" using Cons.prems(2) True s by simp
      moreover have "f \<in> set (concat (map snd td))"
        using Cons.prems(3) False s slot_subset[of td k'] by auto
      ultimately show ?thesis using d(1) by blast
    qed
  next
    case False
    show ?thesis
    proof (cases "k' = a")
      case True
      have "f \<in> set gs" using Cons.prems(3) True s by simp
      moreover have "f \<in> set (concat (map snd td))"
        using Cons.prems(2) False s slot_subset[of td k] by auto
      ultimately show ?thesis using d(1) by blast
    next
      case k': False
      show ?thesis using Cons.IH[OF d(2)] Cons.prems(2,3) False k' s by simp
    qed
  qed
qed

lemma map_of_slot: "map_of td k = Some fs \<Longrightarrow> slot td k = fs"
  by (simp add: slot_def)

lemma resolve_entities_fold:
  assumes "\<forall>e \<in> set es. map_of (todo (lookup_store s self)) (key e) \<noteq> None"
  shows "resolve_entities self val es s =
     Ok () (fold (\<lambda>e. set_results (slot (todo (lookup_store s self)) (key e)) (val e)) es s)"
  using assms
proof (induction es arbitrary: s)
  case Nil
  then show ?case by simp
next
  case (Cons e es)
  obtain fs where fs: "map_of (todo (lookup_store s self)) (key e) = Some fs"
    using Cons.prems by auto
  let ?s1 = "set_results fs (val e) s"
  have st: "lookup_store ?s1 = lookup_store s" by simp
  have "resolve_entities self val es ?s1 =
     Ok () (fold (\<lambda>e. set_results (slot (todo (lookup_store ?s1 self)) (key e)) (val e)) es ?s1)"
    using Cons.prems by (intro Cons.IH) (simp add: st)
  then show ?case using fs
    by (simp add: SerializeToString_def st map_of_slot)
qed

lemma fold_set_results_futs:
  "futs (fold (\<lambda>e. set_results (S e) (val e)) es s) f =
     (if is_done (futs s f) then futs s f
      else case find (\<lambda>e. f \<in> set (S e)) es of
             None \<Rightarrow> futs s f
           | Some e \<Rightarrow> Result (val e))"
proof (induction es arbitrary: s)
  case Nil
  then show ?case by simp
next
  case (Cons e es)
  show ?case
    by (auto simp: Cons.IH set_results_futs split: option.splits)
qed

lemma fold_set_results_frame:
  "lookup_store (fold (\<lambda>e. set_results (S e) (val e)) es s) = lookup_store s
   \<and> calls (fold (\<lambda>e. set_results (S e) (val e)) es s) = calls s
   \<and> rpcs (fold (\<lambda>e. set_results (S e) (val e)) es s) = rpcs s
   \<and> idlers (fold (\<lambda>e. set_results (S e) (val e)) es s) = idlers s
   \<and> batches (fold (\<lambda>e. set_results (S e) (val e)) es s) = batches s
   \<and> next_lookup (fold (\<lambda>e. set_results (S e) (val e)) es s) = next_lookup s"
  by (induction es arbitrary: s) simp_all



lemma find_unique_key:
  "e0 \<in> set es \<Longrightarrow> P e0 \<Longrightarrow> \<forall>e \<in> set es. P e \<longrightarrow> e = e0 \<Longrightarrow> find P es = Some e0"
proof (induction es)
  case Nil
  then show ?case by simp
next
  case (Cons e es)
  show ?case
  proof (cases "P e")
    case True
    then have "e = e0" using Cons.prems(3) by simp
    then show ?thesis using True by simp
  next
    case False
    then have "e0 \<in> set es" using Cons.prems(1,2) by auto
    moreover have "\<forall>e \<in> set es. P e \<longrightarrow> e = e0" using Cons.prems(3) by simp
    ultimately have "find P es = Some e0" using Cons.IH Cons.prems(2) by blast
    then show ?thesis using False by simp
  qed
qed

lemma find_none: "\<forall>e \<in> set es. \<not> P e \<Longrightarrow> find P es = None"
  by (induction es) auto

lemma defer_keys_ok:
  assumes "nb \<noteq> self" "\<forall>k \<in> set ks. map_of (todo (lookup_store s self)) k \<noteq> None"
    "distinct ks"
  shows "\<exists>s1. defer_keys self nb ks s = Ok () s1
     \<and> futs s1 = futs s \<and> calls s1 = calls s \<and> rpcs s1 = rpcs s \<and> idlers s1 = idlers s
     \<and> batches s1 = batches s \<and> next_lookup s1 = next_lookup s
     \<and> lookup_store s1 self = lookup_store s self
     \<and> (\<forall>k'. slot (todo (lookup_store s1 nb)) k' =
          slot (todo (lookup_store s nb)) k'
            @ (if k' \<in> set ks then slot (todo (lookup_store s self)) k' else []))"
  using assms
proof (induction ks arbitrary: s)
  case Nil
  then show ?case by simp
next
  case (Cons k ks)
  obtain fs where fs: "map_of (todo (lookup_store s self)) k = Some fs"
    using Cons.prems(2) by auto
  let ?s1 = "update_todo nb (todo_extend k []) s"
  let ?s2 = "update_todo nb (todo_extend k fs) ?s1"
  have self2: "lookup_store ?s2 self = lookup_store s self"
    using Cons.prems(1) by (simp add: update_todo_def)
  have self1: "lookup_store ?s1 self = lookup_store s self"
    using Cons.prems(1) by (simp add: update_todo_def)
  have dk: "distinct ks" "k \<notin> set ks" using Cons.prems(3) by auto
  have pre: "\<forall>k \<in> set ks. map_of (todo (lookup_store ?s2 self)) k \<noteq> None"
    using Cons.prems(2) by (simp add: self2)
  obtain s3 where s3: "defer_keys self nb ks ?s2 = Ok () s3"
     "futs s3 = futs ?s2" "calls s3 = calls ?s2" "rpcs s3 = rpcs ?s2" "idlers s3 = idlers ?s2"
     "batches s3 = batches ?s2" "next_lookup s3 = next_lookup ?s2"
     "lookup_store s3 self = lookup_store ?s2 self"
     "\<forall>k'. slot (todo (lookup_store s3 nb)) k' =
          slot (todo (lookup_store ?s2 nb)) k'
            @ (if k' \<in> set ks then slot (todo (lookup_store ?s2 self)) k' else [])"
    using Cons.IH[OF Cons.prems(1) pre dk(1)] by (elim exE conjE) (rule that; assumption)
  have nb2: "\<And>k'. slot (todo (lookup_store ?s2 nb)) k' =
      (if k' = k then slot (todo (lookup_store s nb)) k @ fs else slot (todo (lookup_store s nb)) k')"
    by (simp add: update_todo_def slot_todo_extend)
  have d: "defer_keys self nb (k # ks) s = Ok () s3"
    by (simp only: defer_keys.simps SerializeToString_def Let_def self1 fs option.case s3(1))
  have sl: "\<forall>k'. slot (todo (lookup_store s3 nb)) k' =
          slot (todo (lookup_store s nb)) k'
            @ (if k' \<in> set (k # ks) then slot (todo (lookup_store s self)) k' else [])"
  proof
    fix k'
    have "slot (todo (lookup_store s self)) k = fs" using fs by (rule map_of_slot)
    then show "slot (todo (lookup_store s3 nb)) k' =
          slot (todo (lookup_store s nb)) k'
            @ (if k' \<in> set (k # ks) then slot (todo (lookup_store s self)) k' else [])"
      using s3(9)[rule_format, of k'] dk(2) unfolding nb2 self2 by auto
  qed
  have fr: "futs ?s2 = futs s" "calls ?s2 = calls s" "rpcs ?s2 = rpcs s" "idlers ?s2 = idlers s"
    "batches ?s2 = batches s" "next_lookup ?s2 = next_lookup s"
    by (simp_all add: update_todo_def)
  have "defer_keys self nb (k # ks) s = Ok () s3
     \<and> futs s3 = futs s \<and> calls s3 = calls s \<and> rpcs s3 = rpcs s \<and> idlers s3 = idlers s
     \<and> batches s3 = batches s \<and> next_lookup s3 = next_lookup s
     \<and> lookup_store s3 self = lookup_store s self
     \<and> (\<forall>k'. slot (todo (lookup_store s3 nb)) k' =
          slot (todo (lookup_store s nb)) k'
            @ (if k' \<in> set (k # ks) then slot (todo (lookup_store s self)) k' else []))"
    using d sl by (simp only: s3(2-8) self2 fr simp_thms)
  then show ?case by (rule exI)
qed

lemma get_batch_lookup_fresh:
  assumes "map_of (batches_of s LookupBatchCls) (options_key opts) = None"
  shows "\<exists>s1. get_batch LookupBatchCls opts s = Ok (next_lookup s) s1
     \<and> batches_of s1 LookupBatchCls
         = AList.update (options_key opts) (next_lookup s) (batches_of s LookupBatchCls)
     \<and> batches_of s1 NonTransactionalCommitBatchCls = batches_of s NonTransactionalCommitBatchCls
     \<and> futs s1 = futs s \<and> next_future s1 = next_future s \<and> calls s1 = calls s
     \<and> rpcs s1 = rpcs s \<and> ctx_transaction s1 = ctx_transaction s
     \<and> next_lookup s1 = Suc (next_lookup s)
     \<and> lookup_store s1 = (lookup_store s)(next_lookup s := \<lparr>lb_options = opts, todo = []\<rparr>)
     \<and> idlers s1 = idlers s @ [BatchIdle LookupBatchCls (options_key opts)]"
  using assms
  by (cases "batches s LookupBatchCls")
     (auto simp: get_batch_def Let_def new_LookupBatch_def add_idle_def batches_of_def)

lemma map_of_in_range: "map_of al k = Some v \<Longrightarrow> v \<in> snd ` set al"
proof -
  assume "map_of al k = Some v"
  then have "(k, v) \<in> set al" by (rule map_of_SomeD)
  then show ?thesis by force
qed

lemma deferral_step:
  assumes u1: "self \<notin> snd ` set (batches_of s LookupBatchCls)"
    and u2: "self < next_lookup s"
    and kd: "\<forall>k \<in> set ks. map_of (todo (lookup_store s self)) k \<noteq> None"
    and dd: "distinct ks"
  shows "\<exists>sd. (if ks \<noteq> []
            then bind_result (get_batch LookupBatchCls opts s)
                   (\<lambda>next_batch s1. defer_keys self next_batch ks s1)
            else Ok () s) = Ok () sd
     \<and> futs sd = futs s \<and> calls sd = calls s \<and> rpcs sd = rpcs s
     \<and> lookup_store sd self = lookup_store s self
     \<and> (ks = [] \<longrightarrow> sd = s)
     \<and> (ks \<noteq> [] \<longrightarrow>
          (\<exists>nb. map_of (batches_of sd LookupBatchCls) (options_key opts) = Some nb \<and> nb \<noteq> self
             \<and> (\<forall>nb0. map_of (batches_of s LookupBatchCls) (options_key opts) = Some nb0 \<longrightarrow>
                    nb = nb0 \<and> idlers sd = idlers s
                  \<and> (\<forall>k \<in> set ks. slot (todo (lookup_store sd nb)) k
                        = slot (todo (lookup_store s nb)) k @ slot (todo (lookup_store s self)) k))
             \<and> (map_of (batches_of s LookupBatchCls) (options_key opts) = None \<longrightarrow>
                    nb = next_lookup s
                  \<and> idlers sd = idlers s @ [BatchIdle LookupBatchCls (options_key opts)]
                  \<and> (\<forall>k \<in> set ks. slot (todo (lookup_store sd nb)) k
                        = slot (todo (lookup_store s self)) k))))"
proof (cases "ks = []")
  case True
  then show ?thesis by simp
next
  case ne: False
  show ?thesis
  proof (cases "map_of (batches_of s LookupBatchCls) (options_key opts)")
    case (Some nb)
    have g: "get_batch LookupBatchCls opts s = Ok nb s" using Some by (rule get_batch_existing)
    have n: "nb \<noteq> self" using map_of_in_range[OF Some] u1 by auto
    obtain sd where sd: "defer_keys self nb ks s = Ok () sd"
      "futs sd = futs s" "calls sd = calls s" "rpcs sd = rpcs s" "idlers sd = idlers s"
      "batches sd = batches s" "next_lookup sd = next_lookup s"
      "lookup_store sd self = lookup_store s self"
      "\<forall>k'. slot (todo (lookup_store sd nb)) k' =
          slot (todo (lookup_store s nb)) k'
            @ (if k' \<in> set ks then slot (todo (lookup_store s self)) k' else [])"
      using defer_keys_ok[OF n kd dd] by (elim exE conjE) (rule that; assumption)
    have b: "batches_of sd = batches_of s" using sd(6) by (rule batches_of_cong)
    have "(if ks \<noteq> []
            then bind_result (get_batch LookupBatchCls opts s)
                   (\<lambda>next_batch s1. defer_keys self next_batch ks s1)
            else Ok () s) = Ok () sd
     \<and> futs sd = futs s \<and> calls sd = calls s \<and> rpcs sd = rpcs s
     \<and> lookup_store sd self = lookup_store s self
     \<and> (ks = [] \<longrightarrow> sd = s)
     \<and> (ks \<noteq> [] \<longrightarrow>
          (\<exists>nb. map_of (batches_of sd LookupBatchCls) (options_key opts) = Some nb \<and> nb \<noteq> self
             \<and> (\<forall>nb0. map_of (batches_of s LookupBatchCls) (options_key opts) = Some nb0 \<longrightarrow>
                    nb = nb0 \<and> idlers sd = idlers s
                  \<and> (\<forall>k \<in> set ks. slot (todo (lookup_store sd nb)) k
                        = slot (todo (lookup_store s nb)) k @ slot (todo (lookup_store s self)) k))
             \<and> (map_of (batches_of s LookupBatchCls) (options_key opts) = None \<longrightarrow>
                    nb = next_lookup s
                  \<and> idlers sd = idlers s @ [BatchIdle LookupBatchCls (options_key opts)]
                  \<and> (\<forall>k \<in> set ks. slot (todo (lookup_store sd nb)) k
                        = slot (todo (lookup_store s self)) k))))"
      using ne g sd n Some by (auto simp: b intro!: exI[of _ nb])
    then show ?thesis by (rule exI)
  next
    case None
    obtain s1 where s1: "get_batch LookupBatchCls opts s = Ok (next_lookup s) s1"
      "batches_of s1 LookupBatchCls
         = AList.update (options_key opts) (next_lookup s) (batches_of s LookupBatchCls)"
      "futs s1 = futs s" "calls s1 = calls s" "rpcs s1 = rpcs s"
      "lookup_store s1 = (lookup_store s)(next_lookup s := \<lparr>lb_options = opts, todo = []\<rparr>)"
      "idlers s1 = idlers s @ [BatchIdle LookupBatchCls (options_key opts)]"
      using get_batch_lookup_fresh[OF None] by (elim exE conjE) (rule that; assumption)
    let ?nb = "next_lookup s"
    have n: "?nb \<noteq> self" using u2 by simp
    have self1: "lookup_store s1 self = lookup_store s self" using n by (simp add: s1(6))
    have kd1: "\<forall>k \<in> set ks. map_of (todo (lookup_store s1 self)) k \<noteq> None"
      using kd by (simp add: self1)
    obtain sd where sd: "defer_keys self ?nb ks s1 = Ok () sd"
      "futs sd = futs s1" "calls sd = calls s1" "rpcs sd = rpcs s1" "idlers sd = idlers s1"
      "batches sd = batches s1" "next_lookup sd = next_lookup s1"
      "lookup_store sd self = lookup_store s1 self"
      "\<forall>k'. slot (todo (lookup_store sd ?nb)) k' =
          slot (todo (lookup_store s1 ?nb)) k'
            @ (if k' \<in> set ks then slot (todo (lookup_store s1 self)) k' else [])"
      using defer_keys_ok[OF n kd1 dd] by (elim exE conjE) (rule that; assumption)
    have b: "batches_of sd = batches_of s1" using sd(6) by (rule batches_of_cong)
    have reg: "map_of (batches_of sd LookupBatchCls) (options_key opts) = Some ?nb"
      by (simp add: b s1(2) AList.update_conv')
    have sl: "\<forall>k \<in> set ks. slot (todo (lookup_store sd ?nb)) k
                        = slot (todo (lookup_store s self)) k"
    proof
      fix k assume k: "k \<in> set ks"
      have "slot (todo (lookup_store s1 ?nb)) k = []" by (simp add: s1(6) slot_def)
      then show "slot (todo (lookup_store sd ?nb)) k = slot (todo (lookup_store s self)) k"
        using sd(9)[rule_format, of k] k by (simp add: self1)
    qed
    have "(if ks \<noteq> []
            then bind_result (get_batch LookupBatchCls opts s)
                   (\<lambda>next_batch s1. defer_keys self next_batch ks s1)
            else Ok () s) = Ok () sd
     \<and> futs sd = futs s \<and> calls sd = calls s \<and> rpcs sd = rpcs s
     \<and> lookup_store sd self = lookup_store s self
     \<and> (ks = [] \<longrightarrow> sd = s)
     \<and> (ks \<noteq> [] \<longrightarrow>
          (\<exists>nb. map_of (batches_of sd LookupBatchCls) (options_key opts) = Some nb \<and> nb \<noteq> self
             \<and> (\<forall>nb0. map_of (batches_of s LookupBatchCls) (options_key opts) = Some nb0 \<longrightarrow>
                    nb = nb0 \<and> idlers sd = idlers s
                  \<and> (\<forall>k \<in> set ks. slot (todo (lookup_store sd nb)) k
                        = slot (todo (lookup_store s nb)) k @ slot (todo (lookup_store s self)) k))
             \<and> (map_of (batches_of s LookupBatchCls) (options_key opts) = None \<longrightarrow>
                    nb = next_lookup s
                  \<and> idlers sd = idlers s @ [BatchIdle LookupBatchCls (options_key opts)]
                  \<and> (\<forall>k \<in> set ks. slot (todo (lookup_store sd nb)) k
                        = slot (todo (lookup_store s self)) k))))"
      using ne s1(1,3,4,5,7) sd(1-5,8) self1 n reg sl None
      by (auto intro!: exI[of _ ?nb])
    then show ?thesis by (rule exI)
  qed
qed

lemma lookup_callback_response:
  assumes u1: "self \<notin> snd ` set (batches_of s LookupBatchCls)"
    and u2: "self < next_lookup s"
    and kd: "\<forall>k \<in> set (deferred r). map_of (todo (lookup_store s self)) k \<noteq> None"
    and km: "\<forall>e \<in> set (missing r). map_of (todo (lookup_store s self)) (key e) \<noteq> None"
    and kf: "\<forall>e \<in> set (found r). map_of (todo (lookup_store s self)) (key e) \<noteq> None"
    and dd: "distinct (deferred r)"
  shows "\<exists>s1. LookupBatch_lookup_callback self (Inr r) s = Ok () s1
     \<and> calls s1 = calls s \<and> rpcs s1 = rpcs s
     \<and> (\<forall>f. futs s1 f =
          (if is_done (futs s f) then futs s f
           else case find (\<lambda>e. f \<in> set (slot (todo (lookup_store s self)) (key e))) (missing r) of
                  Some e \<Rightarrow> Result NOT_FOUND
                | None \<Rightarrow>
                   (case find (\<lambda>e. f \<in> set (slot (todo (lookup_store s self)) (key e))) (found r) of
                      Some e \<Rightarrow> Result (EntityValue e)
                    | None \<Rightarrow> futs s f)))
     \<and> (deferred r = [] \<longrightarrow>
          idlers s1 = idlers s \<and> batches s1 = batches s \<and> lookup_store s1 = lookup_store s)
     \<and> (deferred r \<noteq> [] \<longrightarrow> resubmitted self (deferred r) s s1)"
proof -
  let ?opts = "lb_options (lookup_store s self)"
  let ?T = "todo (lookup_store s self)"
  let ?D = "if deferred r \<noteq> []
            then bind_result (get_batch LookupBatchCls ?opts s)
                   (\<lambda>next_batch s1. defer_keys self next_batch (deferred r) s1)
            else Ok () s"
  obtain sd where sd: "?D = Ok () sd" "futs sd = futs s" "calls sd = calls s" "rpcs sd = rpcs s"
     "lookup_store sd self = lookup_store s self"
     "deferred r = [] \<longrightarrow> sd = s"
     "deferred r \<noteq> [] \<longrightarrow>
          (\<exists>nb. map_of (batches_of sd LookupBatchCls) (options_key ?opts) = Some nb \<and> nb \<noteq> self
             \<and> (\<forall>nb0. map_of (batches_of s LookupBatchCls) (options_key ?opts) = Some nb0 \<longrightarrow>
                    nb = nb0 \<and> idlers sd = idlers s
                  \<and> (\<forall>k \<in> set (deferred r). slot (todo (lookup_store sd nb)) k
                        = slot (todo (lookup_store s nb)) k @ slot ?T k))
             \<and> (map_of (batches_of s LookupBatchCls) (options_key ?opts) = None \<longrightarrow>
                    nb = next_lookup s
                  \<and> idlers sd = idlers s @ [BatchIdle LookupBatchCls (options_key ?opts)]
                  \<and> (\<forall>k \<in> set (deferred r). slot (todo (lookup_store sd nb)) k
                        = slot ?T k)))"
    using deferral_step[OF u1 u2 kd dd, of ?opts] by (elim exE conjE) (rule that; assumption)
  define sm where "sm = fold (\<lambda>e. set_results (slot (todo (lookup_store sd self)) (key e))
               ((\<lambda>_. NOT_FOUND) e)) (missing r) sd"
  have km': "\<forall>e \<in> set (missing r). map_of (todo (lookup_store sd self)) (key e) \<noteq> None"
    unfolding sd(5) by (rule km)
  have m: "resolve_entities self (\<lambda>_. NOT_FOUND) (missing r) sd = Ok () sm"
    unfolding sm_def by (rule resolve_entities_fold[OF km'])
  have frm1: "lookup_store sm = lookup_store sd \<and> calls sm = calls sd \<and> rpcs sm = rpcs sd
      \<and> idlers sm = idlers sd \<and> batches sm = batches sd"
    unfolding sm_def
    using fold_set_results_frame[of "\<lambda>e. slot (todo (lookup_store sd self)) (key e)"
        "\<lambda>_. NOT_FOUND" "missing r" sd] by simp
  have lm: "lookup_store sm self = lookup_store s self" using frm1 sd(5) by simp
  define sf where "sf = fold (\<lambda>e. set_results (slot (todo (lookup_store sm self)) (key e))
               (EntityValue e)) (found r) sm"
  have kf': "\<forall>e \<in> set (found r). map_of (todo (lookup_store sm self)) (key e) \<noteq> None"
    unfolding lm by (rule kf)
  have f: "resolve_entities self EntityValue (found r) sm = Ok () sf"
    unfolding sf_def by (rule resolve_entities_fold[OF kf'])
  have cb: "LookupBatch_lookup_callback self (Inr r) s = Ok () sf"
    unfolding LookupBatch_lookup_callback_def using sd(1) m f by simp
  have frm2: "lookup_store sf = lookup_store sm \<and> calls sf = calls sm \<and> rpcs sf = rpcs sm
      \<and> idlers sf = idlers sm \<and> batches sf = batches sm"
    unfolding sf_def
    using fold_set_results_frame[of "\<lambda>e. slot (todo (lookup_store sm self)) (key e)"
        EntityValue "found r" sm] by simp
  have frm: "lookup_store sf = lookup_store sd \<and> calls sf = calls sd \<and> rpcs sf = rpcs sd
      \<and> idlers sf = idlers sd \<and> batches sf = batches sd"
    using frm1 frm2 by simp
  have fm: "\<And>f. futs sm f = (if is_done (futs s f) then futs s f
           else case find (\<lambda>e. f \<in> set (slot ?T (key e))) (missing r) of
                  None \<Rightarrow> futs s f | Some e \<Rightarrow> Result NOT_FOUND)"
    unfolding sm_def fold_set_results_futs sd(2,5) ..
  have ff: "\<And>f. futs sf f = (if is_done (futs sm f) then futs sm f
           else case find (\<lambda>e. f \<in> set (slot ?T (key e))) (found r) of
                  None \<Rightarrow> futs sm f | Some e \<Rightarrow> Result (EntityValue e))"
    unfolding sf_def fold_set_results_futs lm ..
  have fut: "\<forall>f. futs sf f =
          (if is_done (futs s f) then futs s f
           else case find (\<lambda>e. f \<in> set (slot ?T (key e))) (missing r) of
                  Some e \<Rightarrow> Result NOT_FOUND
                | None \<Rightarrow>
                   (case find (\<lambda>e. f \<in> set (slot ?T (key e))) (found r) of
                      Some e \<Rightarrow> Result (EntityValue e)
                    | None \<Rightarrow> futs s f))"
  proof
    fix f
    show "futs sf f =
          (if is_done (futs s f) then futs s f
           else case find (\<lambda>e. f \<in> set (slot ?T (key e))) (missing r) of
                  Some e \<Rightarrow> Result NOT_FOUND
                | None \<Rightarrow>
                   (case find (\<lambda>e. f \<in> set (slot ?T (key e))) (found r) of
                      Some e \<Rightarrow> Result (EntityValue e)
                    | None \<Rightarrow> futs s f))"
      unfolding ff fm by (auto split: option.splits)
  qed
  have nodef: "deferred r = [] \<longrightarrow>
          idlers sf = idlers s \<and> batches sf = batches s \<and> lookup_store sf = lookup_store s"
    using frm sd(6) by auto
  have bo: "batches_of sf = batches_of sd" using frm by (intro batches_of_cong) simp
  have def: "deferred r \<noteq> [] \<longrightarrow> resubmitted self (deferred r) s sf"
  proof
    assume ne: "deferred r \<noteq> []"
    obtain nb where nb: "map_of (batches_of sd LookupBatchCls) (options_key ?opts) = Some nb"
       "nb \<noteq> self"
       "\<forall>nb0. map_of (batches_of s LookupBatchCls) (options_key ?opts) = Some nb0 \<longrightarrow>
                    nb = nb0 \<and> idlers sd = idlers s
                  \<and> (\<forall>k \<in> set (deferred r). slot (todo (lookup_store sd nb)) k
                        = slot (todo (lookup_store s nb)) k @ slot ?T k)"
       "map_of (batches_of s LookupBatchCls) (options_key ?opts) = None \<longrightarrow>
                    nb = next_lookup s
                  \<and> idlers sd = idlers s @ [BatchIdle LookupBatchCls (options_key ?opts)]
                  \<and> (\<forall>k \<in> set (deferred r). slot (todo (lookup_store sd nb)) k
                        = slot ?T k)"
      using sd(7)[THEN mp, OF ne] by (elim exE conjE) (rule that; assumption)
    have i: "idlers sf = idlers sd" "lookup_store sf = lookup_store sd" using frm by auto
    show "resubmitted self (deferred r) s sf"
      unfolding resubmitted_def Let_def bo i
      using nb by (auto simp: list_all_iff split: option.splits)
  qed
  have "LookupBatch_lookup_callback self (Inr r) s = Ok () sf
     \<and> calls sf = calls s \<and> rpcs sf = rpcs s
     \<and> (\<forall>f. futs sf f =
          (if is_done (futs s f) then futs s f
           else case find (\<lambda>e. f \<in> set (slot ?T (key e))) (missing r) of
                  Some e \<Rightarrow> Result NOT_FOUND
                | None \<Rightarrow>
                   (case find (\<lambda>e. f \<in> set (slot ?T (key e))) (found r) of
                      Some e \<Rightarrow> Result (EntityValue e)
                    | None \<Rightarrow> futs s f)))
     \<and> (deferred r = [] \<longrightarrow>
          idlers sf = idlers s \<and> batches sf = batches s \<and> lookup_store sf = lookup_store s)
     \<and> (deferred r \<noteq> [] \<longrightarrow> resubmitted self (deferred r) s sf)"
    using cb frm sd(3,4) fut nodef def by (simp only: simp_thms)
  then show ?thesis by (rule exI)
qed

lemma find_slot_none:
  assumes dis: "distinct (concat (map snd td))"
    and f: "f \<in> set (slot td k)"
    and k: "k \<notin> key ` set es"
  shows "find (\<lambda>e. f \<in> set (slot td (key e))) es = None"
proof -
  have "\<forall>e \<in> set es. \<not> f \<in> set (slot td (key e))"
  proof
    fix e assume e: "e \<in> set es"
    show "\<not> f \<in> set (slot td (key e))"
    proof
      assume "f \<in> set (slot td (key e))"
      then have "k = key e" using slot_disjoint[OF dis f] by simp
      then show False using k e by auto
    qed
  qed
  then show ?thesis
    using find_none[where P = "\<lambda>e. f \<in> set (slot td (key e))" and es = es] by blast
qed

lemma find_slot_some:
  assumes dis: "distinct (concat (map snd td))"
    and f: "f \<in> set (slot td (key e0))"
    and e0: "e0 \<in> set es"
    and dk: "distinct (map key es)"
  shows "find (\<lambda>e. f \<in> set (slot td (key e))) es = Some e0"
proof -
  have inj: "inj_on key (set es)" using dk by (simp add: distinct_map)
  have u: "\<forall>e \<in> set es. f \<in> set (slot td (key e)) \<longrightarrow> e = e0"
  proof (intro ballI impI)
    fix e assume e: "e \<in> set es" and fe: "f \<in> set (slot td (key e))"
    have "key e = key e0" using slot_disjoint[OF dis fe f] .
    then show "e = e0" using inj e e0 by (auto dest: inj_onD)
  qed
  show ?thesis
    using find_unique_key[where P = "\<lambda>e. f \<in> set (slot td (key e))" and ?e0.0 = e0 and es = es]
      e0 f u by blast
qed

text \<open>
  C5. When the lookup call of a flushed batch completes with an exception, every future
  of every key of the batch receives that exception. When it completes with a response
  whose keys are keys of the batch, every future of a found key is resolved with the
  found entity and every future of a missing key with the sentinel \<^verbatim>\<open>_NOT_FOUND\<close>, a
  value and not an exception. The batch has left the registry, its futures are pending
  and are distinct objects, and the response names a key at most once among its missing
  and found results.
\<close>

theorem lookup_callback_outcomes:
  assumes u1: "self \<notin> snd ` set (batches_of s LookupBatchCls)"
    and u2: "self < next_lookup s"
    and pend: "\<forall>f \<in> set (concat (map snd (todo (lookup_store s self)))). futs s f = Pending"
    and dis: "distinct (concat (map snd (todo (lookup_store s self))))"
  shows "(\<exists>s1. LookupBatch_lookup_callback self (Inl e) s = Ok () s1
           \<and> (\<forall>f \<in> set (concat (map snd (todo (lookup_store s self)))). futs s1 f = Exception e)
           \<and> calls s1 = calls s)
     \<and> ((\<forall>k \<in> set (deferred r). map_of (todo (lookup_store s self)) k \<noteq> None)
        \<and> (\<forall>en \<in> set (missing r). map_of (todo (lookup_store s self)) (key en) \<noteq> None)
        \<and> (\<forall>en \<in> set (found r). map_of (todo (lookup_store s self)) (key en) \<noteq> None)
        \<and> distinct (deferred r) \<and> distinct (map key (missing r) @ map key (found r))
        \<longrightarrow>
          (\<exists>s1. LookupBatch_lookup_callback self (Inr r) s = Ok () s1
             \<and> (\<forall>en \<in> set (found r). \<forall>f \<in> set (slot (todo (lookup_store s self)) (key en)).
                   futs s1 f = Result (EntityValue en))
             \<and> (\<forall>en \<in> set (missing r). \<forall>f \<in> set (slot (todo (lookup_store s self)) (key en)).
                   futs s1 f = Result NOT_FOUND)))"
proof (rule conjI)
  let ?T = "todo (lookup_store s self)"
  let ?s1 = "set_exceptions (concat (map snd ?T)) e s"
  have "LookupBatch_lookup_callback self (Inl e) s = Ok () ?s1
           \<and> (\<forall>f \<in> set (concat (map snd ?T)). futs ?s1 f = Exception e)
           \<and> calls ?s1 = calls s"
    using pend by (simp add: LookupBatch_lookup_callback_def set_exceptions_futs)
  then show "\<exists>s1. LookupBatch_lookup_callback self (Inl e) s = Ok () s1
           \<and> (\<forall>f \<in> set (concat (map snd ?T)). futs s1 f = Exception e)
           \<and> calls s1 = calls s"
    by (rule exI)
next
  let ?T = "todo (lookup_store s self)"
  show "(\<forall>k \<in> set (deferred r). map_of ?T k \<noteq> None)
        \<and> (\<forall>en \<in> set (missing r). map_of ?T (key en) \<noteq> None)
        \<and> (\<forall>en \<in> set (found r). map_of ?T (key en) \<noteq> None)
        \<and> distinct (deferred r) \<and> distinct (map key (missing r) @ map key (found r))
        \<longrightarrow>
          (\<exists>s1. LookupBatch_lookup_callback self (Inr r) s = Ok () s1
             \<and> (\<forall>en \<in> set (found r). \<forall>f \<in> set (slot ?T (key en)).
                   futs s1 f = Result (EntityValue en))
             \<and> (\<forall>en \<in> set (missing r). \<forall>f \<in> set (slot ?T (key en)).
                   futs s1 f = Result NOT_FOUND))"
  proof
    assume a: "(\<forall>k \<in> set (deferred r). map_of ?T k \<noteq> None)
        \<and> (\<forall>en \<in> set (missing r). map_of ?T (key en) \<noteq> None)
        \<and> (\<forall>en \<in> set (found r). map_of ?T (key en) \<noteq> None)
        \<and> distinct (deferred r) \<and> distinct (map key (missing r) @ map key (found r))"
    then have kd: "\<forall>k \<in> set (deferred r). map_of ?T k \<noteq> None"
      and km: "\<forall>en \<in> set (missing r). map_of ?T (key en) \<noteq> None"
      and kf: "\<forall>en \<in> set (found r). map_of ?T (key en) \<noteq> None"
      and dd: "distinct (deferred r)"
      and dmf: "distinct (map key (missing r) @ map key (found r))"
      by simp_all
    have dm: "distinct (map key (missing r))" and df: "distinct (map key (found r))"
      and sep: "key ` set (missing r) \<inter> key ` set (found r) = {}"
      using dmf by auto
    obtain s1 where s1: "LookupBatch_lookup_callback self (Inr r) s = Ok () s1"
      "\<forall>f. futs s1 f =
          (if is_done (futs s f) then futs s f
           else case find (\<lambda>e. f \<in> set (slot ?T (key e))) (missing r) of
                  Some e \<Rightarrow> Result NOT_FOUND
                | None \<Rightarrow>
                   (case find (\<lambda>e. f \<in> set (slot ?T (key e))) (found r) of
                      Some e \<Rightarrow> Result (EntityValue e)
                    | None \<Rightarrow> futs s f))"
      using lookup_callback_response[OF u1 u2 kd km kf dd]
      by (elim exE conjE) (rule that; assumption)
    have fo: "\<forall>en \<in> set (found r). \<forall>f \<in> set (slot ?T (key en)).
                   futs s1 f = Result (EntityValue en)"
    proof (intro ballI)
      fix en f assume en: "en \<in> set (found r)" and f: "f \<in> set (slot ?T (key en))"
      have p: "futs s f = Pending" using pend f slot_subset[of ?T "key en"] by blast
      have "key en \<notin> key ` set (missing r)" using sep en by blast
      then have n: "find (\<lambda>e. f \<in> set (slot ?T (key e))) (missing r) = None"
        by (rule find_slot_none[OF dis f])
      have y: "find (\<lambda>e. f \<in> set (slot ?T (key e))) (found r) = Some en"
        by (rule find_slot_some[OF dis f en df])
      show "futs s1 f = Result (EntityValue en)"
        using s1(2)[rule_format, of f] by (simp add: p n y)
    qed
    have mi: "\<forall>en \<in> set (missing r). \<forall>f \<in> set (slot ?T (key en)).
                   futs s1 f = Result NOT_FOUND"
    proof (intro ballI)
      fix en f assume en: "en \<in> set (missing r)" and f: "f \<in> set (slot ?T (key en))"
      have p: "futs s f = Pending" using pend f slot_subset[of ?T "key en"] by blast
      have y: "find (\<lambda>e. f \<in> set (slot ?T (key e))) (missing r) = Some en"
        by (rule find_slot_some[OF dis f en dm])
      show "futs s1 f = Result NOT_FOUND"
        using s1(2)[rule_format, of f] by (simp add: p y)
    qed
    have "LookupBatch_lookup_callback self (Inr r) s = Ok () s1
             \<and> (\<forall>en \<in> set (found r). \<forall>f \<in> set (slot ?T (key en)).
                   futs s1 f = Result (EntityValue en))
             \<and> (\<forall>en \<in> set (missing r). \<forall>f \<in> set (slot ?T (key en)).
                   futs s1 f = Result NOT_FOUND)"
      using s1(1) fo mi by (intro conjI)
    then show "\<exists>s1. LookupBatch_lookup_callback self (Inr r) s = Ok () s1
             \<and> (\<forall>en \<in> set (found r). \<forall>f \<in> set (slot ?T (key en)).
                   futs s1 f = Result (EntityValue en))
             \<and> (\<forall>en \<in> set (missing r). \<forall>f \<in> set (slot ?T (key en)).
                   futs s1 f = Result NOT_FOUND)"
      by (rule exI)
  qed
qed

text \<open>
  C6. A key that the response reports as deferred, and not as found or missing, goes
  into the open batch of the same options key, which is never the flushed batch: the
  batch that is open already, or else a new one with one flush scheduled for it. That
  batch holds the original futures under the key, the futures are as they were before
  the callback (neither resolved nor failed), and the callback issues no call and
  queues none.
\<close>

theorem deferred_keys_resubmitted:
  assumes u1: "self \<notin> snd ` set (batches_of s LookupBatchCls)"
    and u2: "self < next_lookup s"
    and dis: "distinct (concat (map snd (todo (lookup_store s self))))"
    and ne: "deferred r \<noteq> []"
    and kd: "\<forall>k \<in> set (deferred r). map_of (todo (lookup_store s self)) k \<noteq> None"
    and km: "\<forall>en \<in> set (missing r). map_of (todo (lookup_store s self)) (key en) \<noteq> None"
    and kf: "\<forall>en \<in> set (found r). map_of (todo (lookup_store s self)) (key en) \<noteq> None"
    and dd: "distinct (deferred r)"
    and sep: "\<forall>k \<in> set (deferred r). k \<notin> key ` set (missing r) \<and> k \<notin> key ` set (found r)"
  shows "\<exists>s1. LookupBatch_lookup_callback self (Inr r) s = Ok () s1
     \<and> resubmitted self (deferred r) s s1
     \<and> (\<forall>k \<in> set (deferred r). \<forall>f \<in> set (slot (todo (lookup_store s self)) k).
           futs s1 f = futs s f)
     \<and> calls s1 = calls s \<and> rpcs s1 = rpcs s"
proof -
  let ?T = "todo (lookup_store s self)"
  obtain s1 where s1: "LookupBatch_lookup_callback self (Inr r) s = Ok () s1"
      "calls s1 = calls s" "rpcs s1 = rpcs s"
      "\<forall>f. futs s1 f =
          (if is_done (futs s f) then futs s f
           else case find (\<lambda>e. f \<in> set (slot ?T (key e))) (missing r) of
                  Some e \<Rightarrow> Result NOT_FOUND
                | None \<Rightarrow>
                   (case find (\<lambda>e. f \<in> set (slot ?T (key e))) (found r) of
                      Some e \<Rightarrow> Result (EntityValue e)
                    | None \<Rightarrow> futs s f))"
      "deferred r \<noteq> [] \<longrightarrow> resubmitted self (deferred r) s s1"
    using lookup_callback_response[OF u1 u2 kd km kf dd]
    by (elim exE conjE) (rule that; assumption)
  have un: "\<forall>k \<in> set (deferred r). \<forall>f \<in> set (slot ?T k). futs s1 f = futs s f"
  proof (intro ballI)
    fix k f assume k: "k \<in> set (deferred r)" and f: "f \<in> set (slot ?T k)"
    have "k \<notin> key ` set (missing r)" using sep k by blast
    then have n1: "find (\<lambda>e. f \<in> set (slot ?T (key e))) (missing r) = None"
      by (rule find_slot_none[OF dis f])
    have "k \<notin> key ` set (found r)" using sep k by blast
    then have n2: "find (\<lambda>e. f \<in> set (slot ?T (key e))) (found r) = None"
      by (rule find_slot_none[OF dis f])
    show "futs s1 f = futs s f"
      using s1(4)[rule_format, of f] by (simp add: n1 n2)
  qed
  have "LookupBatch_lookup_callback self (Inr r) s = Ok () s1
     \<and> resubmitted self (deferred r) s s1
     \<and> (\<forall>k \<in> set (deferred r). \<forall>f \<in> set (slot ?T k). futs s1 f = futs s f)
     \<and> calls s1 = calls s \<and> rpcs s1 = rpcs s"
    using s1(1,2,3) s1(5)[THEN mp, OF ne] un by (intro conjI)
  then show ?thesis by (rule exI)
qed

lemma three_lookups_fields:
  "todo (lookup_store three_lookups 0) = [(key1, [0, 1]), (key2, [2])]"
  "lb_options (lookup_store three_lookups 0) = []"
  "batches three_lookups LookupBatchCls = Some [([], 0)]"
  "next_lookup three_lookups = 1"
  "futs three_lookups f = Pending"
  "calls three_lookups = []" "rpcs three_lookups = []"
  "idlers three_lookups = [BatchIdle LookupBatchCls []]"
  "ctx_transaction three_lookups = OptNone"
  by (simp_all add: three_lookups_def api_defs2 prims example_defs Let_def)

lemma flushed_fields:
  "todo (lookup_store flushed 0) = [(key1, [0, 1]), (key2, [2])]"
  "lb_options (lookup_store flushed 0) = []"
  "batches flushed LookupBatchCls = Some []"
  "next_lookup flushed = 1"
  "futs flushed f = Pending"
  "calls flushed = [LookupRequest [key1, key2]
      \<lparr>ro_read_consistency = OptNone, ro_transaction = OptNone\<rparr>]"
  "rpcs flushed = [(LookupRequest [key1, key2]
      \<lparr>ro_read_consistency = OptNone, ro_transaction = OptNone\<rparr>, LookupCallback 0)]"
  "idlers flushed = []"
  by (simp_all add: flushed_def idle_def LookupBatch_idle_callback_def get_read_options_def
      get_transaction_def options_get_def datastore_lookup_def queue_rpc_def
      ParseFromString_def batches_of_def three_lookups_fields Let_def)

lemmas callback_defs = LookupBatch_lookup_callback_def set_exceptions_def set_results_def
  set_exception_def set_result_def slot_def SerializeToString_def update_todo_def
  resubmitted_def batches_of_def get_batch_def new_LookupBatch_def add_idle_def options_key_def
  Let_def

theorem lookup_callback_outcomes_witness:
  "0 \<notin> snd ` set (batches_of flushed LookupBatchCls)
   \<and> 0 < next_lookup flushed
   \<and> list_all (\<lambda>f. futs flushed f = Pending) (concat (map snd (todo (lookup_store flushed 0))))
   \<and> distinct (concat (map snd (todo (lookup_store flushed 0))))
   \<and> map (futs (state_of (LookupBatch_lookup_callback 0 (Inl (RpcError ''unavailable'')) flushed)))
        [0, 1, 2]
       = [Exception (RpcError ''unavailable''), Exception (RpcError ''unavailable''),
          Exception (RpcError ''unavailable'')]
   \<and> map (futs (state_of (LookupBatch_lookup_callback 0
          (Inr \<lparr>found = [entity_of key1], missing = [\<lparr>key = key2, properties = []\<rparr>],
                deferred = []\<rparr>) flushed)))
        [0, 1, 2]
       = [Result (EntityValue (entity_of key1)), Result (EntityValue (entity_of key1)),
          Result NOT_FOUND]"
  using lookup_callback_outcomes[of 0 flushed "RpcError ''unavailable''"
      "\<lparr>found = [entity_of key1], missing = [\<lparr>key = key2, properties = []\<rparr>], deferred = []\<rparr>"]
  by (simp add: flushed_fields callback_defs example_defs)

theorem deferred_keys_resubmitted_witness:
  "0 \<notin> snd ` set (batches_of flushed LookupBatchCls)
   \<and> 0 < next_lookup flushed
   \<and> distinct (concat (map snd (todo (lookup_store flushed 0))))
   \<and> is_ok (LookupBatch_lookup_callback 0
          (Inr \<lparr>found = [], missing = [\<lparr>key = key2, properties = []\<rparr>], deferred = [key1]\<rparr>)
          flushed)
   \<and> resubmitted 0 [key1] flushed
        (state_of (LookupBatch_lookup_callback 0
          (Inr \<lparr>found = [], missing = [\<lparr>key = key2, properties = []\<rparr>], deferred = [key1]\<rparr>)
          flushed))
   \<and> todo (lookup_store (state_of (LookupBatch_lookup_callback 0
          (Inr \<lparr>found = [], missing = [\<lparr>key = key2, properties = []\<rparr>], deferred = [key1]\<rparr>)
          flushed)) 1) = [(key1, [0, 1])]
   \<and> map (futs (state_of (LookupBatch_lookup_callback 0
          (Inr \<lparr>found = [], missing = [\<lparr>key = key2, properties = []\<rparr>], deferred = [key1]\<rparr>)
          flushed))) [0, 1, 2] = [Pending, Pending, Result NOT_FOUND]
   \<and> calls (state_of (LookupBatch_lookup_callback 0
          (Inr \<lparr>found = [], missing = [\<lparr>key = key2, properties = []\<rparr>], deferred = [key1]\<rparr>)
          flushed)) = calls flushed
   \<and> idlers (state_of (LookupBatch_lookup_callback 0
          (Inr \<lparr>found = [], missing = [\<lparr>key = key2, properties = []\<rparr>], deferred = [key1]\<rparr>)
          flushed)) = [BatchIdle LookupBatchCls []]"
  using deferred_keys_resubmitted[of 0 flushed
      "\<lparr>found = [], missing = [\<lparr>key = key2, properties = []\<rparr>], deferred = [key1]\<rparr>"]
  by (simp add: flushed_fields callback_defs example_defs)





lemma enqueue_simps [simp]:
  "enqueue [] td = td"
  "enqueue (p # pairs) td = enqueue pairs (todo_extend (fst p) [snd p] td)"
  by (simp_all add: enqueue_def)





lemma lookup_existing:
  assumes "check_unsupported_options opts = None"
    and "map_of (batches_of s LookupBatchCls) (options_key opts) = Some b"
  shows "lookup k opts s =
     Ok (next_future s) (update_todo b (todo_extend k [next_future s]) (snd (new_future s)))"
  using assms
  by (simp add: lookup_def get_batch_existing LookupBatch_add_def SerializeToString_def
      new_future_def)


lemma options_key_map_of:
  assumes "options_key opts' = options_key opts"
    and "distinct (map fst opts)" "distinct (map fst opts')"
  shows "map_of opts' = map_of opts"
proof -
  have "set (options_key opts') = set opts'" "set (options_key opts) = set opts"
    by (simp_all add: options_key_def)
  then have "set opts' = set opts" using assms(1) by simp
  then show ?thesis using map_of_inject_set[OF assms(3) assms(2)] by simp
qed

lemma get_read_options_eq:
  "get_read_options opts s =
     (if get_transaction opts s \<noteq> OptNone \<and> effective_read_consistency opts = OptInt EVENTUAL
      then Inl (ValueError ''read_consistency must be EVENTUAL when in transaction'')
      else Inr \<lparr>ro_read_consistency = effective_read_consistency opts,
                ro_transaction = get_transaction opts s\<rparr>)"
  by (simp add: get_read_options_def effective_read_consistency_def Let_def)

lemma get_transaction_cong:
  "map_of opts' = map_of opts \<Longrightarrow> ctx_transaction s' = ctx_transaction s \<Longrightarrow>
   get_transaction opts' s' = get_transaction opts s"
  by (simp add: get_transaction_def split: option.splits)

lemma effective_read_consistency_cong:
  "map_of opts' = map_of opts \<Longrightarrow>
   effective_read_consistency opts' = effective_read_consistency opts"
  by (simp add: effective_read_consistency_def options_get_def)

lemma get_read_options_cong:
  assumes "map_of opts' = map_of opts" "ctx_transaction s' = ctx_transaction s"
  shows "get_read_options opts' s' = get_read_options opts s"
proof -
  have "get_transaction opts' s' = get_transaction opts s"
    using assms by (rule get_transaction_cong)
  moreover have "effective_read_consistency opts' = effective_read_consistency opts"
    using assms(1) by (rule effective_read_consistency_cong)
  ultimately show ?thesis unfolding get_read_options_eq by simp
qed

lemma get_read_options_raises:
  assumes "get_transaction opts s \<noteq> OptNone"
    and "effective_read_consistency opts = OptInt EVENTUAL"
  shows "get_read_options opts s
           = Inl (ValueError ''read_consistency must be EVENTUAL when in transaction'')"
  using assms by (simp add: get_read_options_eq)

lemma idle_lookup_raises_any:
  assumes "map_of (batches_of s2 LookupBatchCls) okey = Some b"
    and "get_read_options (lb_options (lookup_store s2 b)) s2 = Inl e"
  shows "\<exists>s3. idle LookupBatchCls okey s2 = Raise e s3
     \<and> calls s3 = calls s2 \<and> rpcs s3 = rpcs s2 \<and> futs s3 = futs s2
     \<and> lookup_store s3 = lookup_store s2 \<and> idlers s3 = idlers s2
     \<and> map_of (batches_of s3 LookupBatchCls) okey = None"
proof -
  let ?s1 = "s2\<lparr>batches := (batches s2)(LookupBatchCls :=
                 Some (AList.delete okey (batches_of s2 LookupBatchCls)))\<rparr>"
  have "get_read_options (lb_options (lookup_store s2 b)) ?s1
      = get_read_options (lb_options (lookup_store s2 b)) s2"
    by (rule get_read_options_cong) simp_all
  then have g: "get_read_options (lb_options (lookup_store ?s1 b)) ?s1 = Inl e"
    using assms(2) by simp
  have "idle LookupBatchCls okey s2 = Raise e ?s1"
    using assms(1) g by (simp add: idle_def LookupBatch_idle_callback_def Let_def)
  moreover have "map_of (batches_of ?s1 LookupBatchCls) okey = None"
    by (simp add: batches_of_def AList.delete_conv')
  ultimately have "idle LookupBatchCls okey s2 = Raise e ?s1
     \<and> calls ?s1 = calls s2 \<and> rpcs ?s1 = rpcs s2 \<and> futs ?s1 = futs s2
     \<and> lookup_store ?s1 = lookup_store s2 \<and> idlers ?s1 = idlers s2
     \<and> map_of (batches_of ?s1 LookupBatchCls) okey = None"
    by simp
  then show ?thesis by (rule exI)
qed

lemma lookup_effect:
  assumes sup: "check_unsupported_options opts = None"
  shows "\<exists>b s1. lookup k opts s = Ok (next_future s) s1
     \<and> map_of (batches_of s1 LookupBatchCls) (options_key opts) = Some b
     \<and> todo (lookup_store s1 b) = todo_extend k [next_future s]
          (case map_of (batches_of s LookupBatchCls) (options_key opts) of
             None \<Rightarrow> [] | Some b0 \<Rightarrow> todo (lookup_store s b0))
     \<and> lb_options (lookup_store s1 b) =
          (case map_of (batches_of s LookupBatchCls) (options_key opts) of
             None \<Rightarrow> opts | Some b0 \<Rightarrow> lb_options (lookup_store s b0))
     \<and> (\<forall>g. futs s1 g = (if g = next_future s then Pending else futs s g))
     \<and> calls s1 = calls s \<and> rpcs s1 = rpcs s \<and> ctx_transaction s1 = ctx_transaction s
     \<and> idlers s1 =
          (case map_of (batches_of s LookupBatchCls) (options_key opts) of
             None \<Rightarrow> idlers s @ [BatchIdle LookupBatchCls (options_key opts)]
           | Some b0 \<Rightarrow> idlers s)"
proof (cases "map_of (batches_of s LookupBatchCls) (options_key opts)")
  case None
  obtain s0 where s0: "get_batch LookupBatchCls opts s = Ok (next_lookup s) s0"
     "batches_of s0 LookupBatchCls
         = AList.update (options_key opts) (next_lookup s) (batches_of s LookupBatchCls)"
     "futs s0 = futs s" "next_future s0 = next_future s" "calls s0 = calls s"
     "rpcs s0 = rpcs s" "ctx_transaction s0 = ctx_transaction s"
     "lookup_store s0 = (lookup_store s)(next_lookup s := \<lparr>lb_options = opts, todo = []\<rparr>)"
     "idlers s0 = idlers s @ [BatchIdle LookupBatchCls (options_key opts)]"
    using get_batch_lookup_fresh[OF None] by (elim exE conjE) (rule that; assumption)
  let ?b = "next_lookup s"
  define s1 where "s1 = update_todo ?b (todo_extend k [next_future s0]) (snd (new_future s0))"
  have l: "lookup k opts s = Ok (next_future s) s1"
    using sup s0(1) s0(4) unfolding s1_def
    by (simp add: lookup_def LookupBatch_add_def SerializeToString_def new_future_def)
  have "batches s1 = batches s0" unfolding s1_def by (simp add: update_todo_def new_future_def)
  then have bo: "batches_of s1 = batches_of s0" by (rule batches_of_cong)
  have reg: "map_of (batches_of s1 LookupBatchCls) (options_key opts) = Some ?b"
    unfolding bo s0(2) by (simp add: AList.update_conv')
  have fr: "todo (lookup_store s1 ?b) = todo_extend k [next_future s] []"
     "lb_options (lookup_store s1 ?b) = opts"
     "\<forall>g. futs s1 g = (if g = next_future s then Pending else futs s g)"
     "calls s1 = calls s" "rpcs s1 = rpcs s" "ctx_transaction s1 = ctx_transaction s"
     "idlers s1 = idlers s @ [BatchIdle LookupBatchCls (options_key opts)]"
    unfolding s1_def using s0(3-9) by (simp_all add: update_todo_def new_future_def)
  have "lookup k opts s = Ok (next_future s) s1
     \<and> map_of (batches_of s1 LookupBatchCls) (options_key opts) = Some ?b
     \<and> todo (lookup_store s1 ?b) = todo_extend k [next_future s] []
     \<and> lb_options (lookup_store s1 ?b) = opts
     \<and> (\<forall>g. futs s1 g = (if g = next_future s then Pending else futs s g))
     \<and> calls s1 = calls s \<and> rpcs s1 = rpcs s \<and> ctx_transaction s1 = ctx_transaction s
     \<and> idlers s1 = idlers s @ [BatchIdle LookupBatchCls (options_key opts)]"
    using l reg fr by (intro conjI)
  then show ?thesis unfolding None option.case by (intro exI)
next
  case (Some b0)
  define s1 where "s1 = update_todo b0 (todo_extend k [next_future s]) (snd (new_future s))"
  have l: "lookup k opts s = Ok (next_future s) s1"
    unfolding s1_def using sup Some by (rule lookup_existing)
  have "batches s1 = batches s" unfolding s1_def by (simp add: update_todo_def new_future_def)
  then have bo: "batches_of s1 = batches_of s" by (rule batches_of_cong)
  have reg: "map_of (batches_of s1 LookupBatchCls) (options_key opts) = Some b0"
    unfolding bo by (rule Some)
  have fr: "todo (lookup_store s1 b0) = todo_extend k [next_future s] (todo (lookup_store s b0))"
     "lb_options (lookup_store s1 b0) = lb_options (lookup_store s b0)"
     "\<forall>g. futs s1 g = (if g = next_future s then Pending else futs s g)"
     "calls s1 = calls s" "rpcs s1 = rpcs s" "ctx_transaction s1 = ctx_transaction s"
     "idlers s1 = idlers s"
    unfolding s1_def by (simp_all add: update_todo_def new_future_def)
  have "lookup k opts s = Ok (next_future s) s1
     \<and> map_of (batches_of s1 LookupBatchCls) (options_key opts) = Some b0
     \<and> todo (lookup_store s1 b0) = todo_extend k [next_future s] (todo (lookup_store s b0))
     \<and> lb_options (lookup_store s1 b0) = lb_options (lookup_store s b0)
     \<and> (\<forall>g. futs s1 g = (if g = next_future s then Pending else futs s g))
     \<and> calls s1 = calls s \<and> rpcs s1 = rpcs s \<and> ctx_transaction s1 = ctx_transaction s
     \<and> idlers s1 = idlers s"
    using l reg fr by (intro conjI)
  then show ?thesis unfolding Some option.case by (intro exI)
qed

text \<open>
  C2, as the code has it. Take supported options, a dictionary, that carry a transaction
  (their own or that of the context) together with eventual reads, asked for through
  \<^verbatim>\<open>read_consistency\<close> or through the legacy \<^verbatim>\<open>read_policy\<close>. \<^verbatim>\<open>lookup\<close> does not
  fail: it returns a new pending future, enqueued under its key in the open batch of the
  options key, which it creates with one flush scheduled or joins; no call is issued and
  no other future changes. The flush of that batch raises \<^verbatim>\<open>ValueError\<close>: the batch
  has left the registry by then, no call is issued or queued, and every future is as
  \<^verbatim>\<open>lookup\<close> left it, so the futures of the batch stay pending. The second part says
  the same of the flush of any registered batch whose stored options carry the
  combination. A batch is registered under the key of its own options.
\<close>

theorem lookup_eventual_in_transaction:
  assumes sup: "check_unsupported_options opts = None"
    and dk: "distinct (map fst opts)"
    and txn: "get_transaction opts s \<noteq> OptNone"
    and ev: "effective_read_consistency opts = OptInt EVENTUAL"
    and inv: "\<forall>b0. map_of (batches_of s LookupBatchCls) (options_key opts) = Some b0 \<longrightarrow>
                options_key (lb_options (lookup_store s b0)) = options_key opts
              \<and> distinct (map fst (lb_options (lookup_store s b0)))"
  shows "(\<exists>b s1 s2. lookup k opts s = Ok (next_future s) s1
       \<and> map_of (batches_of s1 LookupBatchCls) (options_key opts) = Some b
       \<and> todo (lookup_store s1 b) = todo_extend k [next_future s]
            (case map_of (batches_of s LookupBatchCls) (options_key opts) of
               None \<Rightarrow> [] | Some b0 \<Rightarrow> todo (lookup_store s b0))
       \<and> (\<forall>g. futs s1 g = (if g = next_future s then Pending else futs s g))
       \<and> calls s1 = calls s \<and> rpcs s1 = rpcs s
       \<and> idlers s1 =
            (case map_of (batches_of s LookupBatchCls) (options_key opts) of
               None \<Rightarrow> idlers s @ [BatchIdle LookupBatchCls (options_key opts)]
             | Some b0 \<Rightarrow> idlers s)
       \<and> idle LookupBatchCls (options_key opts) s1 =
            Raise (ValueError ''read_consistency must be EVENTUAL when in transaction'') s2
       \<and> calls s2 = calls s \<and> rpcs s2 = rpcs s
       \<and> (\<forall>g. futs s2 g = (if g = next_future s then Pending else futs s g))
       \<and> lookup_store s2 = lookup_store s1
       \<and> map_of (batches_of s2 LookupBatchCls) (options_key opts) = None)
   \<and> (\<forall>s' okey' b'.
         map_of (batches_of s' LookupBatchCls) okey' = Some b'
         \<and> get_transaction (lb_options (lookup_store s' b')) s' \<noteq> OptNone
         \<and> effective_read_consistency (lb_options (lookup_store s' b')) = OptInt EVENTUAL
         \<longrightarrow> (\<exists>s3. idle LookupBatchCls okey' s' =
                  Raise (ValueError ''read_consistency must be EVENTUAL when in transaction'') s3
                \<and> calls s3 = calls s' \<and> rpcs s3 = rpcs s' \<and> futs s3 = futs s'
                \<and> lookup_store s3 = lookup_store s' \<and> idlers s3 = idlers s'
                \<and> map_of (batches_of s3 LookupBatchCls) okey' = None))"
proof (rule conjI)
  let ?E = "ValueError ''read_consistency must be EVENTUAL when in transaction''"
  let ?old = "map_of (batches_of s LookupBatchCls) (options_key opts)"
  obtain b s1 where s1: "lookup k opts s = Ok (next_future s) s1"
     "map_of (batches_of s1 LookupBatchCls) (options_key opts) = Some b"
     "todo (lookup_store s1 b) = todo_extend k [next_future s]
          (case ?old of None \<Rightarrow> [] | Some b0 \<Rightarrow> todo (lookup_store s b0))"
     "lb_options (lookup_store s1 b) =
          (case ?old of None \<Rightarrow> opts | Some b0 \<Rightarrow> lb_options (lookup_store s b0))"
     "\<forall>g. futs s1 g = (if g = next_future s then Pending else futs s g)"
     "calls s1 = calls s" "rpcs s1 = rpcs s" "ctx_transaction s1 = ctx_transaction s"
     "idlers s1 =
          (case ?old of None \<Rightarrow> idlers s @ [BatchIdle LookupBatchCls (options_key opts)]
           | Some b0 \<Rightarrow> idlers s)"
    using lookup_effect[OF sup, of k s] by (elim exE conjE) (rule that; assumption)
  have m: "map_of (lb_options (lookup_store s1 b)) = map_of opts"
  proof (cases ?old)
    case None
    then show ?thesis using s1(4) by simp
  next
    case (Some b0)
    have "options_key (lb_options (lookup_store s b0)) = options_key opts"
      "distinct (map fst (lb_options (lookup_store s b0)))"
      using inv Some by simp_all
    then have "map_of (lb_options (lookup_store s b0)) = map_of opts"
      using dk by (intro options_key_map_of)
    then show ?thesis using s1(4) Some by simp
  qed
  have "get_read_options (lb_options (lookup_store s1 b)) s1 = get_read_options opts s"
    using m s1(8) by (rule get_read_options_cong)
  then have g: "get_read_options (lb_options (lookup_store s1 b)) s1 = Inl ?E"
    using get_read_options_raises[OF txn ev] by simp
  obtain s2 where s2: "idle LookupBatchCls (options_key opts) s1 = Raise ?E s2"
     "calls s2 = calls s1" "rpcs s2 = rpcs s1" "futs s2 = futs s1"
     "lookup_store s2 = lookup_store s1"
     "map_of (batches_of s2 LookupBatchCls) (options_key opts) = None"
    using idle_lookup_raises_any[OF s1(2) g] by (elim exE conjE) (rule that; assumption)
  have "lookup k opts s = Ok (next_future s) s1
       \<and> map_of (batches_of s1 LookupBatchCls) (options_key opts) = Some b
       \<and> todo (lookup_store s1 b) = todo_extend k [next_future s]
            (case ?old of None \<Rightarrow> [] | Some b0 \<Rightarrow> todo (lookup_store s b0))
       \<and> (\<forall>g. futs s1 g = (if g = next_future s then Pending else futs s g))
       \<and> calls s1 = calls s \<and> rpcs s1 = rpcs s
       \<and> idlers s1 =
            (case ?old of None \<Rightarrow> idlers s @ [BatchIdle LookupBatchCls (options_key opts)]
             | Some b0 \<Rightarrow> idlers s)
       \<and> idle LookupBatchCls (options_key opts) s1 = Raise ?E s2
       \<and> calls s2 = calls s \<and> rpcs s2 = rpcs s
       \<and> (\<forall>g. futs s2 g = (if g = next_future s then Pending else futs s g))
       \<and> lookup_store s2 = lookup_store s1
       \<and> map_of (batches_of s2 LookupBatchCls) (options_key opts) = None"
    using s1(1,2,3,5,6,7,9) s2 by simp
  then show "\<exists>b s1 s2. lookup k opts s = Ok (next_future s) s1
       \<and> map_of (batches_of s1 LookupBatchCls) (options_key opts) = Some b
       \<and> todo (lookup_store s1 b) = todo_extend k [next_future s]
            (case ?old of None \<Rightarrow> [] | Some b0 \<Rightarrow> todo (lookup_store s b0))
       \<and> (\<forall>g. futs s1 g = (if g = next_future s then Pending else futs s g))
       \<and> calls s1 = calls s \<and> rpcs s1 = rpcs s
       \<and> idlers s1 =
            (case ?old of None \<Rightarrow> idlers s @ [BatchIdle LookupBatchCls (options_key opts)]
             | Some b0 \<Rightarrow> idlers s)
       \<and> idle LookupBatchCls (options_key opts) s1 = Raise ?E s2
       \<and> calls s2 = calls s \<and> rpcs s2 = rpcs s
       \<and> (\<forall>g. futs s2 g = (if g = next_future s then Pending else futs s g))
       \<and> lookup_store s2 = lookup_store s1
       \<and> map_of (batches_of s2 LookupBatchCls) (options_key opts) = None"
    by (intro exI)
next
  let ?E = "ValueError ''read_consistency must be EVENTUAL when in transaction''"
  show "\<forall>s' okey' b'.
         map_of (batches_of s' LookupBatchCls) okey' = Some b'
         \<and> get_transaction (lb_options (lookup_store s' b')) s' \<noteq> OptNone
         \<and> effective_read_consistency (lb_options (lookup_store s' b')) = OptInt EVENTUAL
         \<longrightarrow> (\<exists>s3. idle LookupBatchCls okey' s' = Raise ?E s3
                \<and> calls s3 = calls s' \<and> rpcs s3 = rpcs s' \<and> futs s3 = futs s'
                \<and> lookup_store s3 = lookup_store s' \<and> idlers s3 = idlers s'
                \<and> map_of (batches_of s3 LookupBatchCls) okey' = None)"
  proof (intro allI impI)
    fix s' okey' b'
    assume a: "map_of (batches_of s' LookupBatchCls) okey' = Some b'
         \<and> get_transaction (lb_options (lookup_store s' b')) s' \<noteq> OptNone
         \<and> effective_read_consistency (lb_options (lookup_store s' b')) = OptInt EVENTUAL"
    have g: "get_read_options (lb_options (lookup_store s' b')) s' = Inl ?E"
      using a by (intro get_read_options_raises) simp_all
    show "\<exists>s3. idle LookupBatchCls okey' s' = Raise ?E s3
                \<and> calls s3 = calls s' \<and> rpcs s3 = rpcs s' \<and> futs s3 = futs s'
                \<and> lookup_store s3 = lookup_store s' \<and> idlers s3 = idlers s'
                \<and> map_of (batches_of s3 LookupBatchCls) okey' = None"
      using a by (intro idle_lookup_raises_any[OF _ g]) simp
  qed
qed

theorem lookup_eventual_in_transaction_witness:
  "check_unsupported_options eventual_in_txn1 = None
   \<and> distinct (map fst eventual_in_txn1)
   \<and> get_transaction eventual_in_txn1 (state_of (lookup key1 eventual_in_txn1 init)) \<noteq> OptNone
   \<and> effective_read_consistency eventual_in_txn1 = OptInt EVENTUAL
   \<and> map_of (batches_of (state_of (lookup key1 eventual_in_txn1 init)) LookupBatchCls)
        (options_key eventual_in_txn1) = Some 0
   \<and> options_key (lb_options (lookup_store (state_of (lookup key1 eventual_in_txn1 init)) 0))
        = options_key eventual_in_txn1
   \<and> distinct (map fst (lb_options (lookup_store (state_of (lookup key1 eventual_in_txn1 init)) 0)))
   \<and> is_ok (lookup key2 eventual_in_txn1 (state_of (lookup key1 eventual_in_txn1 init)))
   \<and> todo (lookup_store two_eventual_lookups 0) = [(key1, [0]), (key2, [1])]
   \<and> idlers two_eventual_lookups = [BatchIdle LookupBatchCls (options_key eventual_in_txn1)]
   \<and> raised (idle LookupBatchCls (options_key eventual_in_txn1) two_eventual_lookups)
        = Some (ValueError ''read_consistency must be EVENTUAL when in transaction'')
   \<and> calls (state_of (idle LookupBatchCls (options_key eventual_in_txn1) two_eventual_lookups))
        = []
   \<and> map (futs (state_of (idle LookupBatchCls (options_key eventual_in_txn1)
        two_eventual_lookups))) [0, 1] = [Pending, Pending]
   \<and> batches_of (state_of (idle LookupBatchCls (options_key eventual_in_txn1)
        two_eventual_lookups)) LookupBatchCls = []"
  using lookup_eventual_in_transaction
    [of eventual_in_txn1 "state_of (lookup key1 eventual_in_txn1 init)" key2]
  by (simp add: api_defs2 prims example_defs Let_def eventual_in_txn1_def
      two_eventual_lookups_def effective_read_consistency_def)















end
